theory Spec2Isabelle
  imports Complex_Main "HOL-Library.Sublist"
begin

section \<open>Move grader: gradeFromLoss\<close>

text \<open>
  Both application variants carry the same function:
  \<^verbatim>\<open>
  function gradeFromLoss(cpLoss) {
    const loss = Math.abs(cpLoss) / 100
    if (loss <= 0.1) return "A+"
    if (loss <= 0.2) return "A"
    if (loss <= 0.5) return "B"
    if (loss <= 0.9) return "C"
    if (loss <= 1.5) return "D"
    return "F"
  }
  \<close>
  The argument is a difference of engine scores read by \<open>parseInt\<close>, an integer. The
  quotient is modelled in the reals. For an integer \<open>n\<close> the double \<open>n / 100\<close> is the
  double nearest to the rational \<open>n/100\<close> and each literal is the double nearest to
  its decimal, and rounding is monotone, so every comparison below has the same outcome
  in doubles as in the reals.
\<close>

definition gradeFromLoss :: "int \<Rightarrow> string" where
  "gradeFromLoss cpLoss =
     (let loss = \<bar>real_of_int cpLoss\<bar> / 100 in
      if loss \<le> 0.1 then ''A+''
      else if loss \<le> 0.2 then ''A''
      else if loss \<le> 0.5 then ''B''
      else if loss \<le> 0.9 then ''C''
      else if loss \<le> 1.5 then ''D''
      else ''F'')"

section \<open>Strings as the source reads them\<close>

text \<open>
  A JavaScript string is modelled as a \<open>string\<close> whose characters stand for the code
  units U+0000 to U+00FF; all text the engine protocol and the opening book use is ASCII.
\<close>

definition is_digit :: "char \<Rightarrow> bool" where
  "is_digit c = (c \<in> set ''0123456789'')"

text \<open>The class \<^verbatim>\<open>\s\<close> of a JavaScript regular expression, within U+0000 to U+00FF.\<close>

definition is_space :: "char \<Rightarrow> bool" where
  "is_space c = (c \<in> {CHR 0x09, CHR 0x0A, CHR 0x0B, CHR 0x0C, CHR 0x0D, CHR 0x20, CHR 0xA0})"

text \<open>\<^verbatim>\<open>s.includes(pat)\<close>: \<open>pat\<close> occurs in \<open>s\<close> as a contiguous substring.\<close>

fun str_includes :: "string \<Rightarrow> string \<Rightarrow> bool" where
  "str_includes [] pat = (pat = [])"
| "str_includes (c # cs) pat = (prefix pat (c # cs) \<or> str_includes cs pat)"

text \<open>\<^verbatim>\<open>s.replace(/[+#]/g, "")\<close>: the check and mate decorations are removed.\<close>

definition strip_decor :: "string \<Rightarrow> string" where
  "strip_decor s = filter (\<lambda>c. c \<noteq> CHR ''+'' \<and> c \<noteq> CHR ''#'') s"

text \<open>
  \<^verbatim>\<open>pgn.replace(/[0-9]+\.|[?!+#]/g, "")\<close>. At a digit the first alternative matches
  exactly when the whole run of digits starting there is followed by a dot (the greedy
  \<^verbatim>\<open>[0-9]+\<close> backtracks onto a digit otherwise); the run and the dot are removed.
  Else one of the characters \<^verbatim>\<open>?!+#\<close> is removed, and any other character is kept.
\<close>

function strip_pgn :: "string \<Rightarrow> string" where
  "strip_pgn [] = []"
| "strip_pgn (c # cs) =
     (if is_digit c then
        (case dropWhile is_digit cs of
           [] \<Rightarrow> c # strip_pgn cs
         | d # rest \<Rightarrow> if d = CHR ''.'' then strip_pgn rest else c # strip_pgn cs)
      else if c \<in> set ''?!+#'' then strip_pgn cs
      else c # strip_pgn cs)"
  by pat_completeness auto
termination
proof (relation "measure length")
  fix c :: char and cs d rest
  assume "dropWhile is_digit cs = d # rest"
  then have "length (d # rest) \<le> length cs"
    using length_dropWhile_le [of is_digit cs] by simp
  then show "(rest, c # cs) \<in> measure length" by simp
qed simp_all

text \<open>\<^verbatim>\<open>s.trim()\<close>: white space is removed at both ends.\<close>

definition trim :: "string \<Rightarrow> string" where
  "trim s = rev (dropWhile is_space (rev (dropWhile is_space s)))"

text \<open>
  \<^verbatim>\<open>s.split(/\s+/)\<close>: the pieces between the maximal runs of white space, the empty
  pieces at either end included. \<open>cur\<close> is the piece being read, and the flag says that
  the previous character belonged to a separator.
\<close>

fun split_ws_from :: "bool \<Rightarrow> string \<Rightarrow> string \<Rightarrow> string list" where
  "split_ws_from sep cur [] = [cur]"
| "split_ws_from sep cur (c # cs) =
     (if is_space c then
        (if sep then split_ws_from True cur cs else cur # split_ws_from True [] cs)
      else split_ws_from False (cur @ [c]) cs)"

definition split_ws :: "string \<Rightarrow> string list" where
  "split_ws s = split_ws_from False [] s"

text \<open>\<^verbatim>\<open>s.split(" ")\<close>: the pieces between single spaces.\<close>

fun split_on :: "char \<Rightarrow> string \<Rightarrow> string \<Rightarrow> string list" where
  "split_on d cur [] = [cur]"
| "split_on d cur (c # cs) =
     (if c = d then cur # split_on d [] cs else split_on d (cur @ [c]) cs)"

text \<open>
  \<^verbatim>\<open>
  function pgnTokens(pgn) {
    return pgn.replace(/[0-9]+\.|[?!+#]/g, "").trim().split(/\s+/).filter(Boolean)
  }
  \<close>
\<close>

definition pgnTokens :: "string \<Rightarrow> string list" where
  "pgnTokens pgn = filter (\<lambda>t. t \<noteq> []) (split_ws (trim (strip_pgn pgn)))"


section \<open>The board-state collaborator\<close>

text \<open>
  The rules of chess are not part of the repository: both variants import \<^verbatim>\<open>Chess\<close>
  from the library chess.js. The model takes the library as a parameter, a record of
  the methods the source calls, over any type \<open>'p\<close> of board objects. A verbose move is
  what \<^verbatim>\<open>moves({ verbose: true })\<close> lists, with the fields the source reads.
\<close>

record vmove =
  color :: string
  from_sq :: string
  to_sq :: string
  piece :: string
  flags :: string
  san :: string
  promotion :: "string option"

text \<open>The object literal \<^verbatim>\<open>{ from, to, promotion }\<close> handed to \<^verbatim>\<open>move\<close>.\<close>

record move_obj =
  mo_from :: string
  mo_to :: string
  mo_promotion :: "string option"

text \<open>
  \<open>new_chess\<close> is \<^verbatim>\<open>new Chess()\<close>, \<open>load_fen\<close> is \<^verbatim>\<open>new Chess(fen)\<close>, \<open>get_fen\<close> is
  \<^verbatim>\<open>fen()\<close>, \<open>legal_moves\<close> is \<^verbatim>\<open>moves({ verbose: true })\<close>, \<open>undo_move\<close> is
  \<^verbatim>\<open>undo()\<close>, \<open>san_history\<close> is \<^verbatim>\<open>history()\<close>, \<open>side_to_move\<close> is \<^verbatim>\<open>turn()\<close> and
  \<open>game_over\<close> is \<^verbatim>\<open>isGameOver()\<close>. \<open>make_move\<close> is \<^verbatim>\<open>move(obj)\<close>: the move made and
  the board after it, or \<open>None\<close> when the library rejects the move (by returning null or
  by throwing, depending on its version; the board is unchanged either way).
\<close>

record 'p chess =
  new_chess :: 'p
  load_fen :: "string \<Rightarrow> 'p"
  get_fen :: "'p \<Rightarrow> string"
  legal_moves :: "'p \<Rightarrow> vmove list"
  make_move :: "'p \<Rightarrow> move_obj \<Rightarrow> (vmove \<times> 'p) option"
  undo_move :: "'p \<Rightarrow> 'p"
  san_history :: "'p \<Rightarrow> string list"
  side_to_move :: "'p \<Rightarrow> string"
  game_over :: "'p \<Rightarrow> bool"

text \<open>A call of \<^verbatim>\<open>move\<close> whose result the source discards.\<close>

definition after_move :: "'p chess \<Rightarrow> 'p \<Rightarrow> move_obj \<Rightarrow> 'p" where
  "after_move ch p obj = (case make_move ch p obj of None \<Rightarrow> p | Some (m, p') \<Rightarrow> p')"

text \<open>\<^verbatim>\<open>m.promotion || "q"\<close>: an absent or empty promotion letter becomes the queen's.\<close>

definition promotion_or_q :: "string option \<Rightarrow> string" where
  "promotion_or_q pr = (case pr of None \<Rightarrow> ''q'' | Some l \<Rightarrow> if l = [] then ''q'' else l)"

section \<open>Opening matcher: detectOpening\<close>

text \<open>
  \<^verbatim>\<open>
  function detectOpening(movesSAN) {
    const tryMatch = (opening) => {
      const tmp = new Chess()
      const target = []
      for (const tok of pgnTokens(opening.pgn)) {
        const legal = tmp.moves({ verbose: true })
        const m = legal.find(
          mv => `${mv.from}${mv.to}` === tok ||
                mv.san.replace(/[+#]/g, "") === tok.replace(/[+#]/g, ""))
        if (!m) return null
        target.push(m.san)
        tmp.move({ from: m.from, to: m.to, promotion: m.promotion || "q" })
      }
      for (let i = 0; i < Math.min(target.length, movesSAN.length); i++) {
        if (target[i].replace(/[+#]/g, "") !== movesSAN[i].replace(/[+#]/g, "")) return null
      }
      return { eco: opening.eco, name: opening.name, matchedLen: target.length }
    }
    let best = null
    for (const op of OPENINGS) {
      const got = tryMatch(op)
      if (got && (!best || got.matchedLen > best.matchedLen)) best = got
    }
    return best
  }
  \<close>
  The two variants differ only in the name of the local array (\<^verbatim>\<open>targetSAN\<close>,
  \<^verbatim>\<open>target\<close>) and in where \<^verbatim>\<open>OPENINGS\<close> is declared.
\<close>

record book_entry =
  eco :: string
  name :: string
  pgn :: string

record opening_match =
  m_eco :: string
  m_name :: string
  matchedLen :: nat

definition OPENINGS :: "book_entry list" where
  "OPENINGS =
    [\<lparr>eco = ''C20'', name = ''King's Pawn Game'', pgn = ''e4''\<rparr>,
     \<lparr>eco = ''C40'', name = ''King's Knight Opening'', pgn = ''e4 e5 Nf3''\<rparr>,
     \<lparr>eco = ''C50'', name = ''Italian Game'', pgn = ''e4 e5 Nf3 Nc6 Bc4''\<rparr>,
     \<lparr>eco = ''C60'', name = ''Ruy Lopez'', pgn = ''e4 e5 Nf3 Nc6 Bb5''\<rparr>,
     \<lparr>eco = ''B30'', name = ''Sicilian Defense'', pgn = ''e4 c5''\<rparr>,
     \<lparr>eco = ''C00'', name = ''French Defense'', pgn = ''e4 e6''\<rparr>,
     \<lparr>eco = ''B01'', name = ''Scandinavian Defense'', pgn = ''e4 d5''\<rparr>,
     \<lparr>eco = ''D00'', name = ''Queen's Pawn Game'', pgn = ''d4 d5''\<rparr>,
     \<lparr>eco = ''D06'', name = ''Slav Defense'', pgn = ''d4 d5 c4 c6''\<rparr>,
     \<lparr>eco = ''D20'', name = ''Queen's Gambit Accepted'', pgn = ''d4 d5 c4 dxc4''\<rparr>,
     \<lparr>eco = ''D30'', name = ''Queen's Gambit Declined'', pgn = ''d4 d5 c4 e6''\<rparr>,
     \<lparr>eco = ''E60'', name = ''King's Indian Defense'', pgn = ''d4 Nf6 c4 g6''\<rparr>]"

text \<open>The callback of \<^verbatim>\<open>legal.find\<close>.\<close>

definition find_token :: "vmove list \<Rightarrow> string \<Rightarrow> vmove option" where
  "find_token legal tok =
     find (\<lambda>mv. from_sq mv @ to_sq mv = tok \<or> strip_decor (san mv) = strip_decor tok) legal"

text \<open>The first loop of \<^verbatim>\<open>tryMatch\<close>; \<open>None\<close> is its \<^verbatim>\<open>return null\<close>.\<close>

fun replay :: "'p chess \<Rightarrow> 'p \<Rightarrow> string list \<Rightarrow> string list \<Rightarrow> string list option" where
  "replay ch tmp target [] = Some target"
| "replay ch tmp target (tok # toks) =
     (case find_token (legal_moves ch tmp) tok of
        None \<Rightarrow> None
      | Some m \<Rightarrow>
          replay ch
            (after_move ch tmp
               \<lparr>mo_from = from_sq m, mo_to = to_sq m,
                mo_promotion = Some (promotion_or_q (promotion m))\<rparr>)
            (target @ [san m]) toks)"

text \<open>The second loop: it runs over the indices below both lengths.\<close>

fun compare_prefix :: "string list \<Rightarrow> string list \<Rightarrow> bool" where
  "compare_prefix (t # ts) (m # ms) =
     (if strip_decor t \<noteq> strip_decor m then False else compare_prefix ts ms)"
| "compare_prefix ts ms = True"

definition tryMatch :: "'p chess \<Rightarrow> string list \<Rightarrow> book_entry \<Rightarrow> opening_match option" where
  "tryMatch ch movesSAN op =
     (case replay ch (new_chess ch) [] (pgnTokens (pgn op)) of
        None \<Rightarrow> None
      | Some target \<Rightarrow>
          if compare_prefix target movesSAN
          then Some \<lparr>m_eco = eco op, m_name = name op, matchedLen = length target\<rparr>
          else None)"

text \<open>The loop over the book, with the variable \<^verbatim>\<open>best\<close>.\<close>

fun detect_from ::
  "'p chess \<Rightarrow> string list \<Rightarrow> book_entry list \<Rightarrow> opening_match option \<Rightarrow> opening_match option"
where
  "detect_from ch movesSAN [] best = best"
| "detect_from ch movesSAN (op # ops) best =
     detect_from ch movesSAN ops
       (case tryMatch ch movesSAN op of
          None \<Rightarrow> best
        | Some got \<Rightarrow>
            (case best of
               None \<Rightarrow> Some got
             | Some b \<Rightarrow> if matchedLen got > matchedLen b then Some got else best))"

definition detectOpening :: "'p chess \<Rightarrow> string list \<Rightarrow> opening_match option" where
  "detectOpening ch movesSAN = detect_from ch movesSAN OPENINGS None"

text \<open>
  The selection in the words of the specification: among the candidates, in book order,
  the first one whose matched length no other candidate exceeds; none when there is no
  candidate.
\<close>

definition longest_in :: "opening_match list \<Rightarrow> opening_match \<Rightarrow> bool" where
  "longest_in cs c = (\<forall>d \<in> set cs. matchedLen d \<le> matchedLen c)"

definition first_longest :: "opening_match list \<Rightarrow> opening_match option" where
  "first_longest cs = find (longest_in cs) cs"

text \<open>
  What chess.js gives and the example of the specification relies on: in the initial
  position every listed move names its two squares by two characters each.
\<close>

definition squares_named :: "'p chess \<Rightarrow> bool" where
  "squares_named ch =
     list_all (\<lambda>m. length (from_sq m) = 2 \<and> length (to_sq m) = 2)
       (legal_moves ch (new_chess ch))"

text \<open>
  The same selection with the matched length that the specification describes: the number
  of moves of the entry that were compared with the history and agreed, which are the
  moves below both lengths.
\<close>

definition spec_tryMatch :: "'p chess \<Rightarrow> string list \<Rightarrow> book_entry \<Rightarrow> opening_match option" where
  "spec_tryMatch ch movesSAN op =
     map_option (\<lambda>r. r\<lparr>matchedLen := min (matchedLen r) (length movesSAN)\<rparr>)
       (tryMatch ch movesSAN op)"

definition spec_detectOpening :: "'p chess \<Rightarrow> string list \<Rightarrow> opening_match option" where
  "spec_detectOpening ch movesSAN =
     first_longest (List.map_filter (spec_tryMatch ch movesSAN) OPENINGS)"


section \<open>Rationale generator: explainHeuristic\<close>

text \<open>
  \<^verbatim>\<open>
  function explainHeuristic(move, before, after) {
    const parts = []
    if (move.flags?.includes("c")) parts.push("You captured material.")
    if (move.san.includes("+")) parts.push("You gave check.")
    if (move.san.includes("#")) parts.push("Checkmate, nice.")
    const center = new Set(["d4", "d5", "e4", "e5"])
    if (center.has(move.to)) parts.push("You fought for the center.")
    if (["N", "B"].includes(move.piece.toUpperCase())) parts.push("You developed a minor piece.")
    if (move.san === "O-O" || move.san === "O-O-O") parts.push("You castled your king to safety.")
    const us = after.turn() === "w" ? "b" : "w"
    const attackers = after.moves({ verbose: true }).filter(m => m.to === move.to && m.color === us)
    const defenders = after.moves({ verbose: true }).filter(m => m.to === move.to && m.color !== us)
    if (attackers.length > defenders.length) parts.push("The moved piece is under-defended.")
    if (!parts.length) parts.push("Idea makes sense, but there may be a more precise square.")
    return parts.join(" ")
  }
  \<close>
  The function is the same in both variants.
\<close>

text \<open>\<^verbatim>\<open>s.toUpperCase()\<close> on the letters a to z; chess.js names pieces by such letters.\<close>

definition toUpperCase :: "string \<Rightarrow> string" where
  "toUpperCase s =
     map (\<lambda>c. case map_of (zip ''abcdefghijklmnopqrstuvwxyz'' ''ABCDEFGHIJKLMNOPQRSTUVWXYZ'') c of
                 None \<Rightarrow> c
               | Some u \<Rightarrow> u) s"

text \<open>\<^verbatim>\<open>parts.join(sep)\<close>.\<close>

fun join :: "string \<Rightarrow> string list \<Rightarrow> string" where
  "join sep [] = []"
| "join sep [x] = x"
| "join sep (x # y # ys) = x @ sep @ join sep (y # ys)"

definition under_defended :: string where
  "under_defended = ''The moved piece is under-defended.''"

text \<open>The two filtered lists of \<^verbatim>\<open>after.moves({ verbose: true })\<close>.\<close>

definition us_of :: "'p chess \<Rightarrow> 'p \<Rightarrow> string" where
  "us_of ch after = (if side_to_move ch after = ''w'' then ''b'' else ''w'')"

definition attackers :: "'p chess \<Rightarrow> vmove \<Rightarrow> 'p \<Rightarrow> vmove list" where
  "attackers ch move after =
     filter (\<lambda>m. to_sq m = to_sq move \<and> color m = us_of ch after) (legal_moves ch after)"

definition defenders :: "'p chess \<Rightarrow> vmove \<Rightarrow> 'p \<Rightarrow> vmove list" where
  "defenders ch move after =
     filter (\<lambda>m. to_sq m = to_sq move \<and> color m \<noteq> us_of ch after) (legal_moves ch after)"

text \<open>The list \<^verbatim>\<open>parts\<close> before it is joined; each line below is one statement.\<close>

definition explain_parts :: "'p chess \<Rightarrow> vmove \<Rightarrow> 'p \<Rightarrow> 'p \<Rightarrow> string list" where
  "explain_parts ch move before after =
     (let parts = [];
          parts = (if str_includes (flags move) ''c''
                   then parts @ [''You captured material.''] else parts);
          parts = (if str_includes (san move) ''+''
                   then parts @ [''You gave check.''] else parts);
          parts = (if str_includes (san move) ''#''
                   then parts @ [''Checkmate, nice.''] else parts);
          parts = (if to_sq move \<in> set [''d4'', ''d5'', ''e4'', ''e5'']
                   then parts @ [''You fought for the center.''] else parts);
          parts = (if toUpperCase (piece move) \<in> set [''N'', ''B'']
                   then parts @ [''You developed a minor piece.''] else parts);
          parts = (if san move = ''O-O'' \<or> san move = ''O-O-O''
                   then parts @ [''You castled your king to safety.''] else parts);
          parts = (if length (attackers ch move after) > length (defenders ch move after)
                   then parts @ [under_defended] else parts);
          parts = (if parts = []
                   then parts @ [''Idea makes sense, but there may be a more precise square.'']
                   else parts)
      in parts)"

definition explainHeuristic :: "'p chess \<Rightarrow> vmove \<Rightarrow> 'p \<Rightarrow> 'p \<Rightarrow> string" where
  "explainHeuristic ch move before after = join '' '' (explain_parts ch move before after)"

text \<open>
  What the rule is named for, in the words of the specification: the legal moves of the
  opposing side that land on the destination square, and those of the mover's side.
\<close>

definition opposing_moves_onto :: "'p chess \<Rightarrow> vmove \<Rightarrow> 'p \<Rightarrow> vmove list" where
  "opposing_moves_onto ch move after =
     filter (\<lambda>m. to_sq m = to_sq move \<and> color m \<noteq> color move) (legal_moves ch after)"

definition own_moves_onto :: "'p chess \<Rightarrow> vmove \<Rightarrow> 'p \<Rightarrow> vmove list" where
  "own_moves_onto ch move after =
     filter (\<lambda>m. to_sq m = to_sq move \<and> color m = color move) (legal_moves ch after)"

section \<open>Stockfish adapter: useStockfish\<close>

text \<open>
  The repository holds two variants of the application. In \<^verbatim>\<open>src/App.jsx\<close> a search is
  bounded by depth (\<^verbatim>\<open>go depth\<close>); in the other file it is bounded by time
  (\<^verbatim>\<open>go movetime\<close>), the session probes readiness, and \<^verbatim>\<open>analyze\<close> sets a safety
  timeout. Their definitions carry the suffixes \<open>_depth\<close> and \<open>_movetime\<close>; what the
  two share is defined once.

  The texts posted to the engine, one constructor for each:
  \<^verbatim>\<open>uci\<close>, \<^verbatim>\<open>setoption name UCI_LimitStrength value true\<close>,
  \<^verbatim>\<open>setoption name UCI_Elo value ${elo}\<close>, \<^verbatim>\<open>setoption name MultiPV value ${multipv}\<close>,
  \<^verbatim>\<open>isready\<close>, \<^verbatim>\<open>stop\<close>, \<^verbatim>\<open>position fen ${fen}\<close>, \<^verbatim>\<open>go movetime ${movetime}\<close> and
  \<^verbatim>\<open>go depth ${d}\<close>.
\<close>

datatype command =
    Uci
  | SetLimitStrength
  | SetElo int
  | SetMultiPV int
  | IsReady
  | Stop
  | PositionFen string
  | GoMovetime int
  | GoDepth int

text \<open>An entry of \<^verbatim>\<open>lines\<close> and the value a promise of \<^verbatim>\<open>analyze\<close> resolves with.\<close>

record pv_line =
  uci :: string
  pv_san :: string
  pv_cp :: int

record analysis =
  bestmove :: "string option"
  cp :: int
  pv_lines :: "pv_line list"

text \<open>
  One call of \<^verbatim>\<open>analyze\<close> creates a closure: the variables \<^verbatim>\<open>bestmove\<close>,
  \<^verbatim>\<open>lastCp\<close>, \<^verbatim>\<open>lines\<close> (an array with holes) and \<^verbatim>\<open>tmp = new Chess(fen)\<close>, and the
  promise, which is pending (\<open>None\<close>) or settled with a value.
\<close>

record request =
  r_bestmove :: "string option"
  lastCp :: int
  r_lines :: "pv_line option list"
  r_fen :: string
  promise :: "analysis option"

text \<open>
  The state of the hook: whether \<^verbatim>\<open>engineRef.current\<close> is set, the state \<^verbatim>\<open>ready\<close>, the
  texts posted so far, the array of listeners (\<^verbatim>\<open>subs.current\<close>, \<^verbatim>\<open>listeners.current\<close>),
  each listener named by the number of the call that registered it, the closures of all
  calls, their count, and the safety timeouts that are set and have not fired, each with
  its delay in milliseconds.
\<close>

record hook =
  engine :: bool
  ready :: bool
  posted :: "command list"
  listeners :: "nat list"
  requests :: "nat \<Rightarrow> request"
  calls :: nat
  timers :: "(nat \<times> int) list"

definition new_request :: "string \<Rightarrow> request" where
  "new_request f = \<lparr>r_bestmove = None, lastCp = 0, r_lines = [], r_fen = f, promise = None\<rparr>"

definition neutral :: analysis where
  "neutral = \<lparr>bestmove = None, cp = 0, pv_lines = []\<rparr>"

text \<open>
  The first effect of the hook. Without a constructor on \<^verbatim>\<open>window\<close> it logs an error
  and returns; else it creates the engine, installs \<^verbatim>\<open>onMsg\<close> and posts \<^verbatim>\<open>uci\<close>.
\<close>

definition mount :: "bool \<Rightarrow> hook" where
  "mount ctor =
     \<lparr>engine = ctor, ready = False, posted = (if ctor then [Uci] else []), listeners = [],
      requests = (\<lambda>k. new_request []), calls = 0, timers = []\<rparr>"

subsection \<open>Reading the engine's lines\<close>

text \<open>The first match of a pattern: it is tried at every position from the left.\<close>

fun first_match :: "(string \<Rightarrow> 'a option) \<Rightarrow> string \<Rightarrow> 'a option" where
  "first_match f [] = f []"
| "first_match f (c # cs) = (case f (c # cs) of None \<Rightarrow> first_match f cs | Some r \<Rightarrow> Some r)"

text \<open>\<^verbatim>\<open>(-?\d+)\<close> at the start of the text.\<close>

definition signed_digits :: "string \<Rightarrow> string option" where
  "signed_digits s =
     (let sign = (if prefix ''-'' s then ''-'' else []);
          ds = takeWhile is_digit (drop (length sign) s)
      in if ds = [] then None else Some (sign @ ds))"

text \<open>\<^verbatim>\<open>/score (cp|mate) (-?\d+)/\<close> at the start of the text: the two groups.\<close>

definition score_at :: "string \<Rightarrow> (string \<times> string) option" where
  "score_at s =
     (if prefix ''score cp '' s then map_option (Pair ''cp'') (signed_digits (drop 9 s))
      else if prefix ''score mate '' s then map_option (Pair ''mate'') (signed_digits (drop 11 s))
      else None)"

text \<open>\<^verbatim>\<open>/ pv ([a-h][1-8][a-h][1-8][qrbn]?)/\<close> at the start of the text: the group.\<close>

definition pv_at :: "string \<Rightarrow> string option" where
  "pv_at s =
     (if prefix '' pv '' s then
        (case drop 4 s of
           a # b # c # d # rest \<Rightarrow>
             if a \<in> set ''abcdefgh'' \<and> b \<in> set ''12345678'' \<and>
                c \<in> set ''abcdefgh'' \<and> d \<in> set ''12345678''
             then Some ([a, b, c, d] @
                        (case rest of [] \<Rightarrow> [] | e # _ \<Rightarrow> if e \<in> set ''qrbn'' then [e] else []))
             else None
         | _ \<Rightarrow> None)
      else None)"

text \<open>\<^verbatim>\<open>/ multipv (\d+)/\<close> at the start of the text: the group.\<close>

definition multipv_at :: "string \<Rightarrow> string option" where
  "multipv_at s =
     (if prefix '' multipv '' s then
        (let ds = takeWhile is_digit (drop 9 s) in if ds = [] then None else Some ds)
      else None)"

text \<open>
  \<^verbatim>\<open>parseInt(s, 10)\<close> on a text of the form \<^verbatim>\<open>-?\d+\<close>, as an exact integer (a
  double is exact up to \<open>2^53\<close>).
\<close>

definition digits_value :: "string \<Rightarrow> nat" where
  "digits_value s =
     foldl (\<lambda>a c. 10 * a + (case map_of (zip ''0123456789'' [0 ..< 10]) c of
                               None \<Rightarrow> 0 | Some v \<Rightarrow> v)) 0 s"

definition parseInt :: "string \<Rightarrow> int" where
  "parseInt s =
     (if prefix ''-'' s then - int (digits_value (drop 1 s)) else int (digits_value s))"

text \<open>
  \<^verbatim>\<open>lines[idx] = v\<close> on an array with holes: an index from 0 to \<open>2^32 - 2\<close> extends the
  array as far as needed; any other number names a property that \<^verbatim>\<open>filter\<close> does not
  visit.
\<close>

definition set_line :: "pv_line option list \<Rightarrow> int \<Rightarrow> pv_line \<Rightarrow> pv_line option list" where
  "set_line ls idx v =
     (if idx < 0 \<or> 2 ^ 32 - 1 \<le> idx then ls
      else (ls @ replicate (Suc (nat idx) - length ls) None)[nat idx := Some v])"

text \<open>\<^verbatim>\<open>lines.filter(Boolean)\<close>: the filled entries in index order.\<close>

definition compact :: "pv_line option list \<Rightarrow> pv_line list" where
  "compact ls = List.map_filter id ls"

text \<open>\<^verbatim>\<open>m.from + m.to + (m.promotion || "")\<close>.\<close>

definition uci_of :: "vmove \<Rightarrow> string" where
  "uci_of m = from_sq m @ to_sq m @ (case promotion m of None \<Rightarrow> [] | Some l \<Rightarrow> l)"

subsection \<open>The listener of one call\<close>

text \<open>
  \<^verbatim>\<open>
  const off = on((line) => {
    if (!line) return
    if (line.startsWith("info ")) {
      const mScore = line.match(/score (cp|mate) (-?\d+)/)
      const mPV = line.match(/ pv ([a-h][1-8][a-h][1-8][qrbn]?)/)
      const mMulti = line.match(/ multipv (\d+)/)
      if (mScore) {
        lastCp = mScore[1] === "cp" ? parseInt(mScore[2], 10)
                                    : (mScore[2].startsWith("-") ? -100000 : 100000)
      }
      if (mPV && mMulti) {
        const uci = mPV[1]
        const idx = parseInt(mMulti[1], 10) - 1
        const mv = tmp.moves({ verbose: true }).find(m => m.from + m.to + (m.promotion || "") === uci)
        if (mv) lines[idx] = { uci, san: mv.san, cp: lastCp }
      }
    }
    if (line.startsWith("bestmove")) {
      bestmove = line.split(" ")[1] || null
      off()
      resolve({ bestmove, cp: lastCp, lines: lines.filter(Boolean) })
    }
  })
  \<close>
  \<^verbatim>\<open>on(fn)\<close> pushes the listener and returns \<^verbatim>\<open>off\<close>, which replaces the array by a
  copy without it. A promise settles with the first value it is resolved with; a later
  call of \<^verbatim>\<open>resolve\<close> does nothing.
\<close>

definition off :: "nat \<Rightarrow> hook \<Rightarrow> hook" where
  "off k st = st\<lparr>listeners := filter (\<lambda>f. f \<noteq> k) (listeners st)\<rparr>"

definition resolve :: "nat \<Rightarrow> analysis \<Rightarrow> hook \<Rightarrow> hook" where
  "resolve k v st =
     (if promise (requests st k) = None
      then st\<lparr>requests := (requests st)(k := (requests st k)\<lparr>promise := Some v\<rparr>)\<rparr>
      else st)"

text \<open>The value both paths resolve with: \<^verbatim>\<open>{ bestmove, cp: lastCp, lines: lines.filter(Boolean) }\<close>.\<close>

definition observed :: "request \<Rightarrow> analysis" where
  "observed r = \<lparr>bestmove = r_bestmove r, cp = lastCp r, pv_lines = compact (r_lines r)\<rparr>"

text \<open>The branch for a line that starts with \<^verbatim>\<open>info\<close>, on the variables of the closure.\<close>

definition on_info :: "(string \<Rightarrow> vmove list) \<Rightarrow> string \<Rightarrow> request \<Rightarrow> request" where
  "on_info legal line r =
     (let r1 = (case first_match score_at line of
                  None \<Rightarrow> r
                | Some (kind, num) \<Rightarrow>
                    r\<lparr>lastCp := (if kind = ''cp'' then parseInt num
                                  else if prefix ''-'' num then - 100000 else 100000)\<rparr>)
      in case first_match pv_at line of
           None \<Rightarrow> r1
         | Some u \<Rightarrow>
             (case first_match multipv_at line of
                None \<Rightarrow> r1
              | Some n \<Rightarrow>
                  (case find (\<lambda>m. uci_of m = u) (legal (r_fen r1)) of
                     None \<Rightarrow> r1
                   | Some m \<Rightarrow>
                       r1\<lparr>r_lines := set_line (r_lines r1) (parseInt n - 1)
                                        \<lparr>uci = u, pv_san = san m, pv_cp = lastCp r1\<rparr>\<rparr>)))"

text \<open>\<^verbatim>\<open>line.split(" ")[1] || null\<close>.\<close>

definition second_word :: "string \<Rightarrow> string option" where
  "second_word line =
     (case split_on (CHR '' '') [] line of
        a # b # rest \<Rightarrow> if b = [] then None else Some b
      | _ \<Rightarrow> None)"

definition listener :: "(string \<Rightarrow> vmove list) \<Rightarrow> nat \<Rightarrow> string \<Rightarrow> hook \<Rightarrow> hook" where
  "listener legal k line st =
     (if line = [] then st
      else
        let st1 = (if prefix ''info '' line
                   then st\<lparr>requests := (requests st)(k := on_info legal line (requests st k))\<rparr>
                   else st)
        in if prefix ''bestmove'' line then
             let st2 = st1\<lparr>requests :=
                         (requests st1)(k := (requests st1 k)\<lparr>r_bestmove := second_word line\<rparr>)\<rparr>;
                 st3 = off k st2
             in resolve k (observed (requests st3 k)) st3
           else st1)"

text \<open>
  \<^verbatim>\<open>listeners.current.forEach(fn => fn(text))\<close>: the array is read once, and \<^verbatim>\<open>off\<close>
  replaces it without changing it, so every listener registered when the message arrives
  is called.
\<close>

definition dispatch :: "(string \<Rightarrow> vmove list) \<Rightarrow> string \<Rightarrow> hook \<Rightarrow> hook" where
  "dispatch legal text st = foldl (\<lambda>s k. listener legal k text s) st (listeners st)"

subsection \<open>The message handler and the session\<close>

text \<open>
  In the movetime variant:
  \<^verbatim>\<open>
  const onMsg = (e) => {
    const text = typeof e === "string" ? e : e?.data || ""
    if (text.includes("uciok")) {
      eng.postMessage("setoption name UCI_LimitStrength value true")
      eng.postMessage(`setoption name UCI_Elo value ${elo}`)
      eng.postMessage(`setoption name MultiPV value ${multipv}`)
      eng.postMessage("isready")
    }
    if (text.includes("readyok")) setReady(true)
    listeners.current.forEach(fn => fn(text))
  }
  \<close>
  In the depth variant the first branch ends with \<^verbatim>\<open>setReady(true)\<close> in the place of
  the \<^verbatim>\<open>isready\<close> post, and there is no second branch.
\<close>

definition onMsg_movetime ::
  "int \<Rightarrow> int \<Rightarrow> (string \<Rightarrow> vmove list) \<Rightarrow> string \<Rightarrow> hook \<Rightarrow> hook" where
  "onMsg_movetime elo multipv legal text st =
     (let st1 = (if str_includes text ''uciok''
                 then st\<lparr>posted := posted st @
                            [SetLimitStrength, SetElo elo, SetMultiPV multipv, IsReady]\<rparr>
                 else st);
          st2 = (if str_includes text ''readyok'' then st1\<lparr>ready := True\<rparr> else st1)
      in dispatch legal text st2)"

definition onMsg_depth ::
  "int \<Rightarrow> int \<Rightarrow> (string \<Rightarrow> vmove list) \<Rightarrow> string \<Rightarrow> hook \<Rightarrow> hook" where
  "onMsg_depth elo multipv legal text st =
     (let st1 = (if str_includes text ''uciok''
                 then st\<lparr>posted := posted st @ [SetLimitStrength, SetElo elo, SetMultiPV multipv],
                         ready := True\<rparr>
                 else st)
      in dispatch legal text st1)"

text \<open>
  The second effect, run when \<^verbatim>\<open>elo\<close>, \<^verbatim>\<open>multipv\<close> or \<^verbatim>\<open>ready\<close> has changed:
  \<^verbatim>\<open>
  if (!engineRef.current || !ready) return
  engineRef.current.postMessage(`setoption name UCI_Elo value ${elo}`)
  engineRef.current.postMessage(`setoption name MultiPV value ${multipv}`)
  \<close>
\<close>

definition sync_options :: "int \<Rightarrow> int \<Rightarrow> hook \<Rightarrow> hook" where
  "sync_options elo multipv st =
     (if \<not> engine st \<or> \<not> ready st then st
      else st\<lparr>posted := posted st @ [SetElo elo, SetMultiPV multipv]\<rparr>)"

text \<open>
  In the movetime variant:
  \<^verbatim>\<open>
  const analyze = useCallback((fen, movetime = MOVETIME_MS) => new Promise(resolve => {
    const eng = engineRef.current
    if (!eng) return resolve({ bestmove: null, cp: 0, lines: [] })
    let bestmove = null
    let lastCp = 0
    const lines = []
    const tmp = new Chess(fen)
    const off = on((line) => { ... })
    eng.postMessage("stop")
    eng.postMessage(`position fen ${fen}`)
    eng.postMessage(`go movetime ${movetime}`)
    // safety timeout in case a message is dropped
    setTimeout(() => {
      off()
      resolve({ bestmove, cp: lastCp, lines: lines.filter(Boolean) })
    }, movetime + 600)
  }), [on])
  \<close>
  In the depth variant the last post is \<^verbatim>\<open>go depth ${d}\<close> and the function ends there:
  it sets no timeout. The promise returned is that of the closure numbered \<open>calls st\<close>.
\<close>

definition analyze_movetime :: "string \<Rightarrow> int \<Rightarrow> hook \<Rightarrow> hook" where
  "analyze_movetime f movetime st =
     (let k = calls st in
      if \<not> engine st
      then st\<lparr>requests := (requests st)(k := (new_request f)\<lparr>promise := Some neutral\<rparr>),
              calls := Suc k\<rparr>
      else st\<lparr>requests := (requests st)(k := new_request f), calls := Suc k,
              listeners := listeners st @ [k],
              posted := posted st @ [Stop, PositionFen f, GoMovetime movetime],
              timers := timers st @ [(k, movetime + 600)]\<rparr>)"

definition analyze_depth :: "string \<Rightarrow> int \<Rightarrow> hook \<Rightarrow> hook" where
  "analyze_depth f d st =
     (let k = calls st in
      if \<not> engine st
      then st\<lparr>requests := (requests st)(k := (new_request f)\<lparr>promise := Some neutral\<rparr>),
              calls := Suc k\<rparr>
      else st\<lparr>requests := (requests st)(k := new_request f), calls := Suc k,
              listeners := listeners st @ [k],
              posted := posted st @ [Stop, PositionFen f, GoDepth d]\<rparr>)"

text \<open>The callback of \<^verbatim>\<open>setTimeout\<close>, run once for a timeout that is set.\<close>

definition timeout_fires :: "nat \<Rightarrow> hook \<Rightarrow> hook" where
  "timeout_fires k st =
     (if k \<in> set (map fst (timers st)) then
        let st1 = st\<lparr>timers := filter (\<lambda>t. fst t \<noteq> k) (timers st)\<rparr>;
            st2 = off k st1
        in resolve k (observed (requests st2 k)) st2
      else st)"

text \<open>
  What happens to the hook, one event at a time on the single event loop: a caller calls
  \<^verbatim>\<open>analyze\<close>, the engine delivers a message, a timeout fires, or the second effect
  runs. Without an engine no handler is installed, so no message is handled.
\<close>

datatype event = Analyze string int | Message string | Timeout nat | Configure int int

fun step_movetime :: "int \<Rightarrow> int \<Rightarrow> (string \<Rightarrow> vmove list) \<Rightarrow> hook \<Rightarrow> event \<Rightarrow> hook" where
  "step_movetime elo multipv legal st (Analyze f movetime) = analyze_movetime f movetime st"
| "step_movetime elo multipv legal st (Message text) =
     (if engine st then onMsg_movetime elo multipv legal text st else st)"
| "step_movetime elo multipv legal st (Timeout k) = timeout_fires k st"
| "step_movetime elo multipv legal st (Configure e m) = sync_options e m st"

fun step_depth :: "int \<Rightarrow> int \<Rightarrow> (string \<Rightarrow> vmove list) \<Rightarrow> hook \<Rightarrow> event \<Rightarrow> hook" where
  "step_depth elo multipv legal st (Analyze f d) = analyze_depth f d st"
| "step_depth elo multipv legal st (Message text) =
     (if engine st then onMsg_depth elo multipv legal text st else st)"
| "step_depth elo multipv legal st (Timeout k) = st"
| "step_depth elo multipv legal st (Configure e m) = sync_options e m st"

definition run_movetime ::
  "int \<Rightarrow> int \<Rightarrow> (string \<Rightarrow> vmove list) \<Rightarrow> hook \<Rightarrow> event list \<Rightarrow> hook" where
  "run_movetime elo multipv legal st evs = foldl (step_movetime elo multipv legal) st evs"

definition run_depth ::
  "int \<Rightarrow> int \<Rightarrow> (string \<Rightarrow> vmove list) \<Rightarrow> hook \<Rightarrow> event list \<Rightarrow> hook" where
  "run_depth elo multipv legal st evs = foldl (step_depth elo multipv legal) st evs"

text \<open>The requests whose promise is pending, in the order of the calls.\<close>

definition pending :: "hook \<Rightarrow> nat list" where
  "pending st = filter (\<lambda>k. promise (requests st k) = None) [0 ..< calls st]"

text \<open>
  An engine that answers probes only: each message that holds \<^verbatim>\<open>readyok\<close> arrives
  when \<^verbatim>\<open>isready\<close> has been posted before.
\<close>

fun answers_probes ::
  "(hook \<Rightarrow> event \<Rightarrow> hook) \<Rightarrow> hook \<Rightarrow> event list \<Rightarrow> bool" where
  "answers_probes stp st [] = True"
| "answers_probes stp st (e # es) =
     ((case e of
         Message text \<Rightarrow> \<not> str_includes text ''readyok'' \<or> IsReady \<in> set (posted st)
       | _ \<Rightarrow> True)
      \<and> answers_probes stp (stp st e) es)"

section \<open>Coaching pipeline: onPieceDrop and engineMove\<close>

text \<open>
  The handlers are \<^verbatim>\<open>async\<close> functions: each runs until it awaits a promise of
  \<^verbatim>\<open>analyze\<close> and goes on when the promise has settled. A handler is modelled by one
  function for each stretch between two awaits; a stretch returns the state of the
  application and what the handler does next: it has returned, or it awaits the promise
  of a request, keeping its local variables. The board object \<^verbatim>\<open>game\<close> of the
  handler's closure is among them; \<^verbatim>\<open>engine.ready\<close> is the value the closure holds,
  the argument \<open>rdy\<close>.
\<close>

record move_record =
  ply :: nat
  mr_move :: string
  grade :: string
  loss :: int
  mr_note :: string

text \<open>
  The state of the component: the hook, the states set by \<^verbatim>\<open>setGame\<close> and
  \<^verbatim>\<open>setFen\<close>, and the coaching sequence set by \<^verbatim>\<open>setCoach\<close>.
\<close>

record 'p app =
  hook_state :: hook
  game_state :: 'p
  fen_state :: string
  coach :: "move_record list"

text \<open>\<^verbatim>\<open>const moveObj = { from: sourceSquare, to: targetSquare, promotion: "q" }\<close>.\<close>

definition moveObj :: "string \<Rightarrow> string \<Rightarrow> move_obj" where
  "moveObj sourceSquare targetSquare =
     \<lparr>mo_from = sourceSquare, mo_to = targetSquare, mo_promotion = Some ''q''\<rparr>"

text \<open>
  \<^verbatim>\<open>game.moves({ verbose: true }).find(m => m.from + m.to + (m.promotion || "") === bestmove)\<close>;
  a null \<^verbatim>\<open>bestmove\<close> equals no text.
\<close>

definition find_uci :: "vmove list \<Rightarrow> string option \<Rightarrow> vmove option" where
  "find_uci legal bm =
     (case bm of None \<Rightarrow> None | Some u \<Rightarrow> find (\<lambda>m. uci_of m = u) legal)"

text \<open>\<^verbatim>\<open>setGame(new Chess(game.fen()))\<close> and \<^verbatim>\<open>setFen(game.fen())\<close>.\<close>

definition set_board :: "'p chess \<Rightarrow> 'p \<Rightarrow> 'p app \<Rightarrow> 'p app" where
  "set_board ch g a = a\<lparr>game_state := load_fen ch (get_fen ch g), fen_state := get_fen ch g\<rparr>"

subsection \<open>The depth variant\<close>

text \<open>
  \<^verbatim>\<open>
  const engineMove = useCallback(async () => {
    if (!engine.ready || game.isGameOver()) return;
    const res = await engine.analyze(game.fen(), depth);
    const legal = game.moves({ verbose: true });
    const mv = legal.find((m) => m.from + m.to + (m.promotion || "") === res.bestmove);
    if (mv) {
      game.move(mv);
      setGame(new Chess(game.fen()));
      setFen(game.fen());
    }
  }, [engine.ready, game, depth]);

  const onPieceDrop = async (sourceSquare, targetSquare) => {
    const moveObj = { from: sourceSquare, to: targetSquare, promotion: "q" };
    const move = game.move(moveObj);
    if (!move) return false;

    const beforeFEN = game.fen();
    game.undo();
    const pre = engine.ready ? await engine.analyze(game.fen(), depth) : { cp: 0 };
    const cpBefore = pre.cp || 0;

    game.move(moveObj);
    setGame(new Chess(game.fen()));
    setFen(game.fen());

    const post = engine.ready ? await engine.analyze(game.fen(), depth) : { cp: cpBefore };
    const cpAfter = post.cp || 0;

    const loss = (cpBefore - cpAfter) * (game.turn() === "w" ? 1 : -1);
    const grade = engine.ready ? gradeFromLoss(loss) : "A";
    const note = explainHeuristic(move, new Chess(beforeFEN), game);
    setCoach((f) => [...f, { ply: game.history().length, move: move.san, grade, loss, note }]);

    await engineMove();
    return true;
  };
  \<close>
\<close>

datatype 'p dtask =
    DReturned bool
  | DAwaitPre nat vmove string string string 'p
  | DAwaitPost nat vmove string int 'p
  | DAwaitReply nat 'p

definition after_reply_depth :: "'p chess \<Rightarrow> 'p \<Rightarrow> analysis \<Rightarrow> 'p app \<Rightarrow> 'p dtask \<times> 'p app" where
  "after_reply_depth ch g res a =
     (case find_uci (legal_moves ch g) (bestmove res) of
        None \<Rightarrow> (DReturned True, a)
      | Some m \<Rightarrow>
          (DReturned True,
           set_board ch
             (after_move ch g
                \<lparr>mo_from = from_sq m, mo_to = to_sq m, mo_promotion = promotion m\<rparr>) a))"

definition engineMove_depth ::
  "'p chess \<Rightarrow> bool \<Rightarrow> int \<Rightarrow> 'p \<Rightarrow> 'p app \<Rightarrow> 'p dtask \<times> 'p app" where
  "engineMove_depth ch rdy depth g a =
     (if \<not> rdy \<or> game_over ch g then (DReturned True, a)
      else (DAwaitReply (calls (hook_state a)) g,
            a\<lparr>hook_state := analyze_depth (get_fen ch g) depth (hook_state a)\<rparr>))"

definition after_post_depth ::
  "'p chess \<Rightarrow> bool \<Rightarrow> int \<Rightarrow> vmove \<Rightarrow> string \<Rightarrow> int \<Rightarrow> 'p \<Rightarrow> int \<Rightarrow> 'p app
     \<Rightarrow> 'p dtask \<times> 'p app" where
  "after_post_depth ch rdy depth move beforeFEN cpBefore g cpAfter a =
     (let l = (cpBefore - cpAfter) * (if side_to_move ch g = ''w'' then 1 else - 1);
          gr = (if rdy then gradeFromLoss l else ''A'');
          nt = explainHeuristic ch move (load_fen ch beforeFEN) g
      in engineMove_depth ch rdy depth g
           (a\<lparr>coach := coach a @
                 [\<lparr>ply = length (san_history ch g), mr_move = san move, grade = gr,
                   loss = l, mr_note = nt\<rparr>]\<rparr>))"

definition after_pre_depth ::
  "'p chess \<Rightarrow> bool \<Rightarrow> int \<Rightarrow> vmove \<Rightarrow> string \<Rightarrow> string \<Rightarrow> string \<Rightarrow> 'p \<Rightarrow> int \<Rightarrow> 'p app
     \<Rightarrow> 'p dtask \<times> 'p app" where
  "after_pre_depth ch rdy depth move beforeFEN sourceSquare targetSquare g0 cpBefore a =
     (let g = after_move ch g0 (moveObj sourceSquare targetSquare);
          a1 = set_board ch g a
      in if rdy
         then (DAwaitPost (calls (hook_state a1)) move beforeFEN cpBefore g,
               a1\<lparr>hook_state := analyze_depth (get_fen ch g) depth (hook_state a1)\<rparr>)
         else after_post_depth ch rdy depth move beforeFEN cpBefore g cpBefore a1)"

definition onPieceDrop_depth ::
  "'p chess \<Rightarrow> bool \<Rightarrow> int \<Rightarrow> string \<Rightarrow> string \<Rightarrow> 'p \<Rightarrow> 'p app \<Rightarrow> 'p dtask \<times> 'p app" where
  "onPieceDrop_depth ch rdy depth sourceSquare targetSquare game a =
     (case make_move ch game (moveObj sourceSquare targetSquare) of
        None \<Rightarrow> (DReturned False, a)
      | Some (move, g) \<Rightarrow>
          (let beforeFEN = get_fen ch g;
               g0 = undo_move ch g
           in if rdy
              then (DAwaitPre (calls (hook_state a)) move beforeFEN sourceSquare targetSquare g0,
                    a\<lparr>hook_state := analyze_depth (get_fen ch g0) depth (hook_state a)\<rparr>)
              else after_pre_depth ch rdy depth move beforeFEN sourceSquare targetSquare g0 0 a))"

text \<open>A handler that awaits goes on once the promise has settled.\<close>

definition resume_depth ::
  "'p chess \<Rightarrow> bool \<Rightarrow> int \<Rightarrow> 'p dtask \<Rightarrow> 'p app \<Rightarrow> 'p dtask \<times> 'p app" where
  "resume_depth ch rdy depth t a =
     (case t of
        DReturned b \<Rightarrow> (t, a)
      | DAwaitPre k move beforeFEN sourceSquare targetSquare g0 \<Rightarrow>
          (case promise (requests (hook_state a) k) of
             None \<Rightarrow> (t, a)
           | Some pre \<Rightarrow>
               after_pre_depth ch rdy depth move beforeFEN sourceSquare targetSquare g0 (cp pre) a)
      | DAwaitPost k move beforeFEN cpBefore g \<Rightarrow>
          (case promise (requests (hook_state a) k) of
             None \<Rightarrow> (t, a)
           | Some post \<Rightarrow> after_post_depth ch rdy depth move beforeFEN cpBefore g (cp post) a)
      | DAwaitReply k g \<Rightarrow>
          (case promise (requests (hook_state a) k) of
             None \<Rightarrow> (t, a)
           | Some res \<Rightarrow> after_reply_depth ch g res a))"

subsection \<open>The movetime variant\<close>

text \<open>
  \<^verbatim>\<open>
  const engineMove = useCallback(async () => {
    if (!engine.ready || game.isGameOver()) return
    const res = await engine.analyze(game.fen(), MOVETIME_MS)
    const mv = game.moves({ verbose: true }).find(m => m.from + m.to + (m.promotion || "") === res.bestmove)
    if (mv) {
      game.move(mv)
      setGame(new Chess(game.fen()))
      setFen(game.fen())
    }
  }, [engine.ready, game])

  const onPieceDrop = async (sourceSquare, targetSquare) => {
    // analyze BEFORE move, to get advice and baseline eval
    const pre = engine.ready ? await engine.analyze(game.fen(), MOVETIME_MS)
                             : { cp: 0, bestmove: null, lines: [] }
    const cpBefore = pre.cp || 0
    const bestUci = pre.bestmove
    const bestSAN = (() => {
      if (!bestUci) return null
      const tmp = new Chess(game.fen())
      const mv = tmp.moves({ verbose: true }).find(m => m.from + m.to + (m.promotion || "") === bestUci)
      return mv?.san || null
    })()

    // try the player's move
    const moveObj = { from: sourceSquare, to: targetSquare, promotion: "q" }
    const move = game.move(moveObj)
    if (!move) return false
    setGame(new Chess(game.fen()))
    setFen(game.fen())

    // analyze AFTER move, then convert eval to player's perspective
    const post = engine.ready ? await engine.analyze(game.fen(), MOVETIME_MS) : { cp: cpBefore }
    const cpAfter = post.cp || 0
    const cpAfterFromPlayer = -cpAfter
    const cpLoss = cpBefore - cpAfterFromPlayer
    const grade = gradeFromLoss(cpLoss)

    const heur = explainHeuristic(move, new Chess(), new Chess(game.fen()))
    const better = bestSAN && (bestUci !== (move.from + move.to + (move.promotion || "")))
                     ? `Stronger was ${bestSAN}. ` : ""
    const note = `${better}${heur}`.trim()

    setCoach(f => [...f, { ply: game.history().length, move: move.san, grade, loss: cpLoss, note }])

    // have engine reply
    await engineMove()
    return true
  }
  \<close>
\<close>

definition MOVETIME_MS :: int where
  "MOVETIME_MS = 450"

datatype 'p mtask =
    MReturned bool
  | MAwaitPre nat string string 'p
  | MAwaitPost nat vmove int "string option" "string option" 'p
  | MAwaitReply nat 'p

definition after_reply_movetime ::
  "'p chess \<Rightarrow> 'p \<Rightarrow> analysis \<Rightarrow> 'p app \<Rightarrow> 'p mtask \<times> 'p app" where
  "after_reply_movetime ch g res a =
     (case find_uci (legal_moves ch g) (bestmove res) of
        None \<Rightarrow> (MReturned True, a)
      | Some m \<Rightarrow>
          (MReturned True,
           set_board ch
             (after_move ch g
                \<lparr>mo_from = from_sq m, mo_to = to_sq m, mo_promotion = promotion m\<rparr>) a))"

definition engineMove_movetime :: "'p chess \<Rightarrow> bool \<Rightarrow> 'p \<Rightarrow> 'p app \<Rightarrow> 'p mtask \<times> 'p app" where
  "engineMove_movetime ch rdy g a =
     (if \<not> rdy \<or> game_over ch g then (MReturned True, a)
      else (MAwaitReply (calls (hook_state a)) g,
            a\<lparr>hook_state := analyze_movetime (get_fen ch g) MOVETIME_MS (hook_state a)\<rparr>))"

definition after_post_movetime ::
  "'p chess \<Rightarrow> bool \<Rightarrow> vmove \<Rightarrow> int \<Rightarrow> string option \<Rightarrow> string option \<Rightarrow> 'p \<Rightarrow> int \<Rightarrow> 'p app
     \<Rightarrow> 'p mtask \<times> 'p app" where
  "after_post_movetime ch rdy move cpBefore bestUci bestSAN g cpAfter a =
     (let cpAfterFromPlayer = - cpAfter;
          cpLoss = cpBefore - cpAfterFromPlayer;
          gr = gradeFromLoss cpLoss;
          heur = explainHeuristic ch move (new_chess ch) (load_fen ch (get_fen ch g));
          better = (case bestSAN of
                      None \<Rightarrow> []
                    | Some s \<Rightarrow>
                        if bestUci \<noteq> Some (uci_of move) then ''Stronger was '' @ s @ ''. ''
                        else []);
          nt = trim (better @ heur)
      in engineMove_movetime ch rdy g
           (a\<lparr>coach := coach a @
                 [\<lparr>ply = length (san_history ch g), mr_move = san move, grade = gr,
                   loss = cpLoss, mr_note = nt\<rparr>]\<rparr>))"

text \<open>The stretch from the first await to the second: \<open>pre\<close> is the settled value.\<close>

definition after_pre_movetime ::
  "'p chess \<Rightarrow> bool \<Rightarrow> string \<Rightarrow> string \<Rightarrow> 'p \<Rightarrow> analysis \<Rightarrow> 'p app \<Rightarrow> 'p mtask \<times> 'p app" where
  "after_pre_movetime ch rdy sourceSquare targetSquare game pre a =
     (let cpBefore = cp pre;
          bestUci = bestmove pre;
          bestSAN = (if bestUci = None \<or> bestUci = Some [] then None
                     else (case find_uci (legal_moves ch (load_fen ch (get_fen ch game))) bestUci of
                             None \<Rightarrow> None
                           | Some m \<Rightarrow> if san m = [] then None else Some (san m)))
      in case make_move ch game (moveObj sourceSquare targetSquare) of
           None \<Rightarrow> (MReturned False, a)
         | Some (move, g) \<Rightarrow>
             (let a1 = set_board ch g a
              in if rdy
                 then (MAwaitPost (calls (hook_state a1)) move cpBefore bestUci bestSAN g,
                       a1\<lparr>hook_state :=
                            analyze_movetime (get_fen ch g) MOVETIME_MS (hook_state a1)\<rparr>)
                 else after_post_movetime ch rdy move cpBefore bestUci bestSAN g cpBefore a1))"

definition onPieceDrop_movetime ::
  "'p chess \<Rightarrow> bool \<Rightarrow> string \<Rightarrow> string \<Rightarrow> 'p \<Rightarrow> 'p app \<Rightarrow> 'p mtask \<times> 'p app" where
  "onPieceDrop_movetime ch rdy sourceSquare targetSquare game a =
     (if rdy
      then (MAwaitPre (calls (hook_state a)) sourceSquare targetSquare game,
            a\<lparr>hook_state := analyze_movetime (get_fen ch game) MOVETIME_MS (hook_state a)\<rparr>)
      else after_pre_movetime ch rdy sourceSquare targetSquare game neutral a)"

definition resume_movetime :: "'p chess \<Rightarrow> bool \<Rightarrow> 'p mtask \<Rightarrow> 'p app \<Rightarrow> 'p mtask \<times> 'p app" where
  "resume_movetime ch rdy t a =
     (case t of
        MReturned b \<Rightarrow> (t, a)
      | MAwaitPre k sourceSquare targetSquare game \<Rightarrow>
          (case promise (requests (hook_state a) k) of
             None \<Rightarrow> (t, a)
           | Some pre \<Rightarrow> after_pre_movetime ch rdy sourceSquare targetSquare game pre a)
      | MAwaitPost k move cpBefore bestUci bestSAN g \<Rightarrow>
          (case promise (requests (hook_state a) k) of
             None \<Rightarrow> (t, a)
           | Some post \<Rightarrow>
               after_post_movetime ch rdy move cpBefore bestUci bestSAN g (cp post) a)
      | MAwaitReply k g \<Rightarrow>
          (case promise (requests (hook_state a) k) of
             None \<Rightarrow> (t, a)
           | Some res \<Rightarrow> after_reply_movetime ch g res a))"



section \<open>Predicates on sessions\<close>

text \<open>The active listeners are the pending requests, in the order of the calls.\<close>

definition synced :: "hook \<Rightarrow> bool" where
  "synced st = (listeners st = pending st)"

text \<open>An event that is no \<^verbatim>\<open>bestmove\<close> line of the engine.\<close>

definition no_bestmove :: "event \<Rightarrow> bool" where
  "no_bestmove e = (case e of Message text \<Rightarrow> \<not> prefix ''bestmove'' text | _ \<Rightarrow> True)"

text \<open>
  The hook without an engine: not ready, no listener, nothing posted, no timeout set,
  and every promise settled with the neutral result.
\<close>

definition idle :: "hook \<Rightarrow> bool" where
  "idle st \<longleftrightarrow>
     \<not> engine st \<and> \<not> ready st \<and> listeners st = [] \<and> posted st = [] \<and> timers st = [] \<and>
     (\<forall>k < calls st. promise (requests st k) = Some neutral)"

text \<open>A pending request has seen no \<^verbatim>\<open>bestmove\<close> line: its variable \<^verbatim>\<open>bestmove\<close> is null.\<close>

definition tidy :: "hook \<Rightarrow> bool" where
  "tidy st \<longleftrightarrow> (\<forall>k. promise (requests st k) = None \<longrightarrow> r_bestmove (requests st k) = None)"

section \<open>A fragment of the collaborator, for evaluation\<close>

text \<open>
  To evaluate the model at concrete inputs, the collaborator is instantiated with the
  part of the rules that those inputs visit: the legal moves of chess in the initial
  position, after 1. e4, after 1. e4 d5, along the line 1. e4 e5 2. Nf3 Nc6, and in one
  pawn ending with a promotion. A board
  object is its current position (as a FEN text), the positions and moves to undo, and
  nothing else; a position outside the fragment lists no moves.
\<close>

definition mv :: "string \<Rightarrow> string \<Rightarrow> string \<Rightarrow> string \<Rightarrow> string \<Rightarrow> string \<Rightarrow> vmove" where
  "mv c p f t fl s =
     \<lparr>color = c, from_sq = f, to_sq = t, piece = p, flags = fl, san = s, promotion = None\<rparr>"

definition promo :: "string \<Rightarrow> string \<Rightarrow> vmove" where
  "promo l s =
     \<lparr>color = ''w'', from_sq = ''a7'', to_sq = ''a8'', piece = ''p'', flags = ''np'', san = s,
      promotion = Some l\<rparr>"

definition fen_start :: string where
  "fen_start = ''rnbqkbnr/pppppppp/8/8/8/8/PPPPPPPP/RNBQKBNR w KQkq - 0 1''"

definition fen_e4 :: string where
  "fen_e4 = ''rnbqkbnr/pppppppp/8/8/4P3/8/PPPP1PPP/RNBQKBNR b KQkq e3 0 1''"

definition fen_e4_d5 :: string where
  "fen_e4_d5 = ''rnbqkbnr/ppp1pppp/8/3p4/4P3/8/PPPP1PPP/RNBQKBNR w KQkq d6 0 2''"

definition fen_e4_e5 :: string where
  "fen_e4_e5 = ''rnbqkbnr/pppp1ppp/8/4p3/4P3/8/PPPP1PPP/RNBQKBNR w KQkq e6 0 2''"

definition fen_e4_e5_Nf3 :: string where
  "fen_e4_e5_Nf3 = ''rnbqkbnr/pppp1ppp/8/4p3/4P3/5N2/PPPP1PPP/RNBQKB1R b KQkq - 1 2''"

definition fen_e4_e5_Nf3_Nc6 :: string where
  "fen_e4_e5_Nf3_Nc6 = ''r1bqkbnr/pppp1ppp/2n5/4p3/4P3/5N2/PPPP1PPP/RNBQKB1R w KQkq - 2 3''"

definition fen_pawn :: string where
  "fen_pawn = ''8/P6k/8/8/8/8/8/K7 w - - 0 1''"

definition fen_queened :: string where
  "fen_queened = ''Q7/7k/8/8/8/8/8/K7 b - - 0 1''"

text \<open>White's moves in the initial position.\<close>

definition moves_start :: "vmove list" where
  "moves_start =
    [mv ''w'' ''p'' ''a2'' ''a3'' ''n'' ''a3'',
     mv ''w'' ''p'' ''a2'' ''a4'' ''b'' ''a4'',
     mv ''w'' ''p'' ''b2'' ''b3'' ''n'' ''b3'',
     mv ''w'' ''p'' ''b2'' ''b4'' ''b'' ''b4'',
     mv ''w'' ''p'' ''c2'' ''c3'' ''n'' ''c3'',
     mv ''w'' ''p'' ''c2'' ''c4'' ''b'' ''c4'',
     mv ''w'' ''p'' ''d2'' ''d3'' ''n'' ''d3'',
     mv ''w'' ''p'' ''d2'' ''d4'' ''b'' ''d4'',
     mv ''w'' ''p'' ''e2'' ''e3'' ''n'' ''e3'',
     mv ''w'' ''p'' ''e2'' ''e4'' ''b'' ''e4'',
     mv ''w'' ''p'' ''f2'' ''f3'' ''n'' ''f3'',
     mv ''w'' ''p'' ''f2'' ''f4'' ''b'' ''f4'',
     mv ''w'' ''p'' ''g2'' ''g3'' ''n'' ''g3'',
     mv ''w'' ''p'' ''g2'' ''g4'' ''b'' ''g4'',
     mv ''w'' ''p'' ''h2'' ''h3'' ''n'' ''h3'',
     mv ''w'' ''p'' ''h2'' ''h4'' ''b'' ''h4'',
     mv ''w'' ''n'' ''b1'' ''a3'' ''n'' ''Na3'',
     mv ''w'' ''n'' ''b1'' ''c3'' ''n'' ''Nc3'',
     mv ''w'' ''n'' ''g1'' ''f3'' ''n'' ''Nf3'',
     mv ''w'' ''n'' ''g1'' ''h3'' ''n'' ''Nh3'']"

text \<open>Black's moves after 1. e4.\<close>

definition moves_e4 :: "vmove list" where
  "moves_e4 =
    [mv ''b'' ''p'' ''a7'' ''a6'' ''n'' ''a6'',
     mv ''b'' ''p'' ''a7'' ''a5'' ''b'' ''a5'',
     mv ''b'' ''p'' ''b7'' ''b6'' ''n'' ''b6'',
     mv ''b'' ''p'' ''b7'' ''b5'' ''b'' ''b5'',
     mv ''b'' ''p'' ''c7'' ''c6'' ''n'' ''c6'',
     mv ''b'' ''p'' ''c7'' ''c5'' ''b'' ''c5'',
     mv ''b'' ''p'' ''d7'' ''d6'' ''n'' ''d6'',
     mv ''b'' ''p'' ''d7'' ''d5'' ''b'' ''d5'',
     mv ''b'' ''p'' ''e7'' ''e6'' ''n'' ''e6'',
     mv ''b'' ''p'' ''e7'' ''e5'' ''b'' ''e5'',
     mv ''b'' ''p'' ''f7'' ''f6'' ''n'' ''f6'',
     mv ''b'' ''p'' ''f7'' ''f5'' ''b'' ''f5'',
     mv ''b'' ''p'' ''g7'' ''g6'' ''n'' ''g6'',
     mv ''b'' ''p'' ''g7'' ''g5'' ''b'' ''g5'',
     mv ''b'' ''p'' ''h7'' ''h6'' ''n'' ''h6'',
     mv ''b'' ''p'' ''h7'' ''h5'' ''b'' ''h5'',
     mv ''b'' ''n'' ''b8'' ''a6'' ''n'' ''Na6'',
     mv ''b'' ''n'' ''b8'' ''c6'' ''n'' ''Nc6'',
     mv ''b'' ''n'' ''g8'' ''f6'' ''n'' ''Nf6'',
     mv ''b'' ''n'' ''g8'' ''h6'' ''n'' ''Nh6'']"

text \<open>White's moves after 1. e4 d5.\<close>

definition moves_e4_d5 :: "vmove list" where
  "moves_e4_d5 =
    [mv ''w'' ''p'' ''a2'' ''a3'' ''n'' ''a3'',
     mv ''w'' ''p'' ''a2'' ''a4'' ''b'' ''a4'',
     mv ''w'' ''p'' ''b2'' ''b3'' ''n'' ''b3'',
     mv ''w'' ''p'' ''b2'' ''b4'' ''b'' ''b4'',
     mv ''w'' ''p'' ''c2'' ''c3'' ''n'' ''c3'',
     mv ''w'' ''p'' ''c2'' ''c4'' ''b'' ''c4'',
     mv ''w'' ''p'' ''d2'' ''d3'' ''n'' ''d3'',
     mv ''w'' ''p'' ''d2'' ''d4'' ''b'' ''d4'',
     mv ''w'' ''p'' ''e4'' ''e5'' ''n'' ''e5'',
     mv ''w'' ''p'' ''e4'' ''d5'' ''c'' ''exd5'',
     mv ''w'' ''p'' ''f2'' ''f3'' ''n'' ''f3'',
     mv ''w'' ''p'' ''f2'' ''f4'' ''b'' ''f4'',
     mv ''w'' ''p'' ''g2'' ''g3'' ''n'' ''g3'',
     mv ''w'' ''p'' ''g2'' ''g4'' ''b'' ''g4'',
     mv ''w'' ''p'' ''h2'' ''h3'' ''n'' ''h3'',
     mv ''w'' ''p'' ''h2'' ''h4'' ''b'' ''h4'',
     mv ''w'' ''n'' ''b1'' ''a3'' ''n'' ''Na3'',
     mv ''w'' ''n'' ''b1'' ''c3'' ''n'' ''Nc3'',
     mv ''w'' ''n'' ''g1'' ''e2'' ''n'' ''Ne2'',
     mv ''w'' ''n'' ''g1'' ''f3'' ''n'' ''Nf3'',
     mv ''w'' ''n'' ''g1'' ''h3'' ''n'' ''Nh3'',
     mv ''w'' ''b'' ''f1'' ''e2'' ''n'' ''Be2'',
     mv ''w'' ''b'' ''f1'' ''d3'' ''n'' ''Bd3'',
     mv ''w'' ''b'' ''f1'' ''c4'' ''n'' ''Bc4'',
     mv ''w'' ''b'' ''f1'' ''b5'' ''n'' ''Bb5+'',
     mv ''w'' ''b'' ''f1'' ''a6'' ''n'' ''Ba6'',
     mv ''w'' ''q'' ''d1'' ''e2'' ''n'' ''Qe2'',
     mv ''w'' ''q'' ''d1'' ''f3'' ''n'' ''Qf3'',
     mv ''w'' ''q'' ''d1'' ''g4'' ''n'' ''Qg4'',
     mv ''w'' ''q'' ''d1'' ''h5'' ''n'' ''Qh5'',
     mv ''w'' ''k'' ''e1'' ''e2'' ''n'' ''Ke2'']"

text \<open>White's moves after 1. e4 e5.\<close>

definition moves_e4_e5 :: "vmove list" where
  "moves_e4_e5 =
    [mv ''w'' ''p'' ''a2'' ''a3'' ''n'' ''a3'',
     mv ''w'' ''p'' ''a2'' ''a4'' ''b'' ''a4'',
     mv ''w'' ''p'' ''b2'' ''b3'' ''n'' ''b3'',
     mv ''w'' ''p'' ''b2'' ''b4'' ''b'' ''b4'',
     mv ''w'' ''p'' ''c2'' ''c3'' ''n'' ''c3'',
     mv ''w'' ''p'' ''c2'' ''c4'' ''b'' ''c4'',
     mv ''w'' ''p'' ''d2'' ''d3'' ''n'' ''d3'',
     mv ''w'' ''p'' ''d2'' ''d4'' ''b'' ''d4'',
     mv ''w'' ''p'' ''f2'' ''f3'' ''n'' ''f3'',
     mv ''w'' ''p'' ''f2'' ''f4'' ''b'' ''f4'',
     mv ''w'' ''p'' ''g2'' ''g3'' ''n'' ''g3'',
     mv ''w'' ''p'' ''g2'' ''g4'' ''b'' ''g4'',
     mv ''w'' ''p'' ''h2'' ''h3'' ''n'' ''h3'',
     mv ''w'' ''p'' ''h2'' ''h4'' ''b'' ''h4'',
     mv ''w'' ''n'' ''b1'' ''a3'' ''n'' ''Na3'',
     mv ''w'' ''n'' ''b1'' ''c3'' ''n'' ''Nc3'',
     mv ''w'' ''n'' ''g1'' ''e2'' ''n'' ''Ne2'',
     mv ''w'' ''n'' ''g1'' ''f3'' ''n'' ''Nf3'',
     mv ''w'' ''n'' ''g1'' ''h3'' ''n'' ''Nh3'',
     mv ''w'' ''b'' ''f1'' ''e2'' ''n'' ''Be2'',
     mv ''w'' ''b'' ''f1'' ''d3'' ''n'' ''Bd3'',
     mv ''w'' ''b'' ''f1'' ''c4'' ''n'' ''Bc4'',
     mv ''w'' ''b'' ''f1'' ''b5'' ''n'' ''Bb5'',
     mv ''w'' ''b'' ''f1'' ''a6'' ''n'' ''Ba6'',
     mv ''w'' ''q'' ''d1'' ''e2'' ''n'' ''Qe2'',
     mv ''w'' ''q'' ''d1'' ''f3'' ''n'' ''Qf3'',
     mv ''w'' ''q'' ''d1'' ''g4'' ''n'' ''Qg4'',
     mv ''w'' ''q'' ''d1'' ''h5'' ''n'' ''Qh5'',
     mv ''w'' ''k'' ''e1'' ''e2'' ''n'' ''Ke2'']"

text \<open>Black's moves after 1. e4 e5 2. Nf3.\<close>

definition moves_e4_e5_Nf3 :: "vmove list" where
  "moves_e4_e5_Nf3 =
    [mv ''b'' ''p'' ''a7'' ''a6'' ''n'' ''a6'',
     mv ''b'' ''p'' ''a7'' ''a5'' ''b'' ''a5'',
     mv ''b'' ''p'' ''b7'' ''b6'' ''n'' ''b6'',
     mv ''b'' ''p'' ''b7'' ''b5'' ''b'' ''b5'',
     mv ''b'' ''p'' ''c7'' ''c6'' ''n'' ''c6'',
     mv ''b'' ''p'' ''c7'' ''c5'' ''b'' ''c5'',
     mv ''b'' ''p'' ''d7'' ''d6'' ''n'' ''d6'',
     mv ''b'' ''p'' ''d7'' ''d5'' ''b'' ''d5'',
     mv ''b'' ''p'' ''f7'' ''f6'' ''n'' ''f6'',
     mv ''b'' ''p'' ''f7'' ''f5'' ''b'' ''f5'',
     mv ''b'' ''p'' ''g7'' ''g6'' ''n'' ''g6'',
     mv ''b'' ''p'' ''g7'' ''g5'' ''b'' ''g5'',
     mv ''b'' ''p'' ''h7'' ''h6'' ''n'' ''h6'',
     mv ''b'' ''p'' ''h7'' ''h5'' ''b'' ''h5'',
     mv ''b'' ''n'' ''b8'' ''a6'' ''n'' ''Na6'',
     mv ''b'' ''n'' ''b8'' ''c6'' ''n'' ''Nc6'',
     mv ''b'' ''n'' ''g8'' ''e7'' ''n'' ''Ne7'',
     mv ''b'' ''n'' ''g8'' ''f6'' ''n'' ''Nf6'',
     mv ''b'' ''n'' ''g8'' ''h6'' ''n'' ''Nh6'',
     mv ''b'' ''b'' ''f8'' ''e7'' ''n'' ''Be7'',
     mv ''b'' ''b'' ''f8'' ''d6'' ''n'' ''Bd6'',
     mv ''b'' ''b'' ''f8'' ''c5'' ''n'' ''Bc5'',
     mv ''b'' ''b'' ''f8'' ''b4'' ''n'' ''Bb4'',
     mv ''b'' ''b'' ''f8'' ''a3'' ''n'' ''Ba3'',
     mv ''b'' ''q'' ''d8'' ''e7'' ''n'' ''Qe7'',
     mv ''b'' ''q'' ''d8'' ''f6'' ''n'' ''Qf6'',
     mv ''b'' ''q'' ''d8'' ''g5'' ''n'' ''Qg5'',
     mv ''b'' ''q'' ''d8'' ''h4'' ''n'' ''Qh4'',
     mv ''b'' ''k'' ''e8'' ''e7'' ''n'' ''Ke7'']"

text \<open>White's moves after 1. e4 e5 2. Nf3 Nc6.\<close>

definition moves_e4_e5_Nf3_Nc6 :: "vmove list" where
  "moves_e4_e5_Nf3_Nc6 =
    [mv ''w'' ''p'' ''a2'' ''a3'' ''n'' ''a3'',
     mv ''w'' ''p'' ''a2'' ''a4'' ''b'' ''a4'',
     mv ''w'' ''p'' ''b2'' ''b3'' ''n'' ''b3'',
     mv ''w'' ''p'' ''b2'' ''b4'' ''b'' ''b4'',
     mv ''w'' ''p'' ''c2'' ''c3'' ''n'' ''c3'',
     mv ''w'' ''p'' ''c2'' ''c4'' ''b'' ''c4'',
     mv ''w'' ''p'' ''d2'' ''d3'' ''n'' ''d3'',
     mv ''w'' ''p'' ''d2'' ''d4'' ''b'' ''d4'',
     mv ''w'' ''p'' ''g2'' ''g3'' ''n'' ''g3'',
     mv ''w'' ''p'' ''g2'' ''g4'' ''b'' ''g4'',
     mv ''w'' ''p'' ''h2'' ''h3'' ''n'' ''h3'',
     mv ''w'' ''p'' ''h2'' ''h4'' ''b'' ''h4'',
     mv ''w'' ''n'' ''b1'' ''a3'' ''n'' ''Na3'',
     mv ''w'' ''n'' ''b1'' ''c3'' ''n'' ''Nc3'',
     mv ''w'' ''n'' ''f3'' ''d4'' ''n'' ''Nd4'',
     mv ''w'' ''n'' ''f3'' ''e5'' ''c'' ''Nxe5'',
     mv ''w'' ''n'' ''f3'' ''g1'' ''n'' ''Ng1'',
     mv ''w'' ''n'' ''f3'' ''g5'' ''n'' ''Ng5'',
     mv ''w'' ''n'' ''f3'' ''h4'' ''n'' ''Nh4'',
     mv ''w'' ''b'' ''f1'' ''e2'' ''n'' ''Be2'',
     mv ''w'' ''b'' ''f1'' ''d3'' ''n'' ''Bd3'',
     mv ''w'' ''b'' ''f1'' ''c4'' ''n'' ''Bc4'',
     mv ''w'' ''b'' ''f1'' ''b5'' ''n'' ''Bb5'',
     mv ''w'' ''b'' ''f1'' ''a6'' ''n'' ''Ba6'',
     mv ''w'' ''q'' ''d1'' ''e2'' ''n'' ''Qe2'',
     mv ''w'' ''k'' ''e1'' ''e2'' ''n'' ''Ke2'',
     mv ''w'' ''r'' ''h1'' ''g1'' ''n'' ''Rg1'']"

text \<open>White's moves in the pawn ending: king a1 and pawn a7 against king h7.\<close>

definition moves_pawn :: "vmove list" where
  "moves_pawn =
    [promo ''q'' ''a8=Q'',
     promo ''r'' ''a8=R'',
     promo ''b'' ''a8=B'',
     promo ''n'' ''a8=N'',
     mv ''w'' ''k'' ''a1'' ''a2'' ''n'' ''Ka2'',
     mv ''w'' ''k'' ''a1'' ''b1'' ''n'' ''Kb1'',
     mv ''w'' ''k'' ''a1'' ''b2'' ''n'' ''Kb2'']"

definition frag_moves :: "string \<Rightarrow> vmove list" where
  "frag_moves f =
     (if f = fen_start then moves_start
      else if f = fen_e4 then moves_e4
      else if f = fen_e4_d5 then moves_e4_d5
      else if f = fen_e4_e5 then moves_e4_e5
      else if f = fen_e4_e5_Nf3 then moves_e4_e5_Nf3
      else if f = fen_e4_e5_Nf3_Nc6 then moves_e4_e5_Nf3_Nc6
      else if f = fen_pawn then moves_pawn
      else [])"

text \<open>The position after a move, where the fragment knows it.\<close>

definition frag_next :: "string \<Rightarrow> string \<Rightarrow> string" where
  "frag_next f s =
     (if f = fen_start \<and> s = ''e4'' then fen_e4
      else if f = fen_e4 \<and> s = ''d5'' then fen_e4_d5
      else if f = fen_e4 \<and> s = ''e5'' then fen_e4_e5
      else if f = fen_e4_e5 \<and> s = ''Nf3'' then fen_e4_e5_Nf3
      else if f = fen_e4_e5_Nf3 \<and> s = ''Nc6'' then fen_e4_e5_Nf3_Nc6
      else if f = fen_pawn \<and> s = ''a8=Q'' then fen_queened
      else f @ '' '' @ s)"

record frag_board =
  cur :: string
  undo_stack :: "(string \<times> string) list"

text \<open>
  \<^verbatim>\<open>move({ from, to, promotion })\<close> as chess.js finds the move: the first legal move
  with these squares that is no promotion or promotes to the given piece.
\<close>

definition frag_make_move :: "frag_board \<Rightarrow> move_obj \<Rightarrow> (vmove \<times> frag_board) option" where
  "frag_make_move b obj =
     (case find (\<lambda>m. from_sq m = mo_from obj \<and> to_sq m = mo_to obj \<and>
                    (promotion m = None \<or> promotion m = mo_promotion obj))
             (frag_moves (cur b)) of
        None \<Rightarrow> None
      | Some m \<Rightarrow>
          Some (m, \<lparr>cur = frag_next (cur b) (san m),
                    undo_stack = (cur b, san m) # undo_stack b\<rparr>))"

definition frag_undo :: "frag_board \<Rightarrow> frag_board" where
  "frag_undo b =
     (case undo_stack b of
        [] \<Rightarrow> b
      | (f, s) # rest \<Rightarrow> \<lparr>cur = f, undo_stack = rest\<rparr>)"

text \<open>The side to move is the second field of the FEN text.\<close>

definition frag_turn :: "string \<Rightarrow> string" where
  "frag_turn f = (case split_on (CHR '' '') [] f of a # b # rest \<Rightarrow> b | _ \<Rightarrow> ''w'')"

definition frag :: "frag_board chess" where
  "frag =
     \<lparr>new_chess = \<lparr>cur = fen_start, undo_stack = []\<rparr>,
      load_fen = (\<lambda>f. \<lparr>cur = f, undo_stack = []\<rparr>),
      get_fen = cur,
      legal_moves = (\<lambda>b. frag_moves (cur b)),
      make_move = frag_make_move,
      undo_move = frag_undo,
      san_history = (\<lambda>b. rev (map snd (undo_stack b))),
      side_to_move = (\<lambda>b. frag_turn (cur b)),
      game_over = (\<lambda>b. frag_moves (cur b) = [])\<rparr>"

text \<open>
  A component on the fragment: the engine has answered the handshake and the probe, no
  request has been made yet, and the board is in the initial position.
\<close>

definition frag_legal :: "string \<Rightarrow> vmove list" where
  "frag_legal f = legal_moves frag (load_fen frag f)"

definition app_ready :: "frag_board app" where
  "app_ready =
     \<lparr>hook_state = run_movetime 1200 3 frag_legal (mount True)
                      [Message ''uciok'', Message ''readyok''],
      game_state = new_chess frag, fen_state = fen_start, coach = []\<rparr>"



section \<open>Properties of the move grader\<close>

lemma pawns_le_iff:
  "\<bar>real_of_int n\<bar> / 100 \<le> real_of_int k / 100 \<longleftrightarrow> \<bar>n\<bar> \<le> k"
proof -
  have "\<bar>real_of_int n\<bar> = real_of_int \<bar>n\<bar>" by simp
  then show ?thesis by (simp only: divide_le_cancel of_int_le_iff) simp
qed

lemma gradeFromLoss_int:
  "gradeFromLoss n =
     (if \<bar>n\<bar> \<le> 10 then ''A+'' else if \<bar>n\<bar> \<le> 20 then ''A''
      else if \<bar>n\<bar> \<le> 50 then ''B'' else if \<bar>n\<bar> \<le> 90 then ''C''
      else if \<bar>n\<bar> \<le> 150 then ''D'' else ''F'')"
proof -
  have a: "\<bar>real_of_int n\<bar> / 100 \<le> 0.1 \<longleftrightarrow> \<bar>n\<bar> \<le> 10"
    using pawns_le_iff [of n 10] by simp
  have b: "\<bar>real_of_int n\<bar> / 100 \<le> 0.2 \<longleftrightarrow> \<bar>n\<bar> \<le> 20"
    using pawns_le_iff [of n 20] by simp
  have c: "\<bar>real_of_int n\<bar> / 100 \<le> 0.5 \<longleftrightarrow> \<bar>n\<bar> \<le> 50"
    using pawns_le_iff [of n 50] by simp
  have d: "\<bar>real_of_int n\<bar> / 100 \<le> 0.9 \<longleftrightarrow> \<bar>n\<bar> \<le> 90"
    using pawns_le_iff [of n 90] by simp
  have e: "\<bar>real_of_int n\<bar> / 100 \<le> 1.5 \<longleftrightarrow> \<bar>n\<bar> \<le> 150"
    using pawns_le_iff [of n 150] by simp
  show ?thesis
    unfolding gradeFromLoss_def Let_def a b c d e ..
qed

text \<open>
  C5. gradeFromLoss is the step function on the absolute loss in pawns with inclusive
  upper bounds on the better grade: for every integer loss, at most 0.10 pawns gives A+,
  at most 0.20 gives A, at most 0.50 gives B, at most 0.90 gives C, at most 1.50 gives D
  and anything greater gives F; 10 gives A+, 20 gives A, 50 gives B, 90 gives C,
  150 gives D and 151 gives F.
\<close>

theorem gradeFromLoss_steps:
  "gradeFromLoss n =
     (if \<bar>real_of_int n\<bar> / 100 \<le> 0.1 then ''A+''
      else if \<bar>real_of_int n\<bar> / 100 \<le> 0.2 then ''A''
      else if \<bar>real_of_int n\<bar> / 100 \<le> 0.5 then ''B''
      else if \<bar>real_of_int n\<bar> / 100 \<le> 0.9 then ''C''
      else if \<bar>real_of_int n\<bar> / 100 \<le> 1.5 then ''D''
      else ''F'')
   \<and> gradeFromLoss n =
     (if \<bar>n\<bar> \<le> 10 then ''A+'' else if \<bar>n\<bar> \<le> 20 then ''A''
      else if \<bar>n\<bar> \<le> 50 then ''B'' else if \<bar>n\<bar> \<le> 90 then ''C''
      else if \<bar>n\<bar> \<le> 150 then ''D'' else ''F'')
   \<and> gradeFromLoss 10 = ''A+'' \<and> gradeFromLoss 20 = ''A'' \<and> gradeFromLoss 50 = ''B''
   \<and> gradeFromLoss 90 = ''C'' \<and> gradeFromLoss 150 = ''D'' \<and> gradeFromLoss 151 = ''F''"
proof -
  have 1: "gradeFromLoss n =
     (if \<bar>real_of_int n\<bar> / 100 \<le> 0.1 then ''A+''
      else if \<bar>real_of_int n\<bar> / 100 \<le> 0.2 then ''A''
      else if \<bar>real_of_int n\<bar> / 100 \<le> 0.5 then ''B''
      else if \<bar>real_of_int n\<bar> / 100 \<le> 0.9 then ''C''
      else if \<bar>real_of_int n\<bar> / 100 \<le> 1.5 then ''D''
      else ''F'')"
    unfolding gradeFromLoss_def Let_def ..
  have 2: "gradeFromLoss 10 = ''A+''" "gradeFromLoss 20 = ''A''" "gradeFromLoss 50 = ''B''"
    "gradeFromLoss 90 = ''C''" "gradeFromLoss 150 = ''D''" "gradeFromLoss 151 = ''F''"
    by (simp_all add: gradeFromLoss_int)
  from 1 2 gradeFromLoss_int [of n] show ?thesis by (simp only: simp_thms)
qed

section \<open>Properties of the opening matcher\<close>

lemma replay_result:
  "replay ch p acc toks = Some t \<Longrightarrow> length t = length acc + length toks \<and> prefix acc t"
proof (induction toks arbitrary: p acc)
  case Nil
  then show ?case by simp
next
  case (Cons tok toks)
  show ?case
  proof (cases "find_token (legal_moves ch p) tok")
    case None
    with Cons.prems show ?thesis by simp
  next
    case (Some m)
    with Cons.prems have r: "replay ch
          (after_move ch p
             \<lparr>mo_from = from_sq m, mo_to = to_sq m,
              mo_promotion = Some (promotion_or_q (promotion m))\<rparr>)
          (acc @ [san m]) toks = Some t"
      by simp
    from Cons.IH [OF r] have "length t = length (acc @ [san m]) + length toks"
      and "prefix (acc @ [san m]) t" by simp_all
    then show ?thesis by (auto dest: append_prefixD)
  qed
qed

lemma compare_prefix_iff:
  "compare_prefix ts ms \<longleftrightarrow>
     (\<forall>i < min (length ts) (length ms). strip_decor (ts ! i) = strip_decor (ms ! i))"
proof (induction ts ms rule: compare_prefix.induct)
  case (1 t ts m ms)
  then show ?case by (auto simp: less_Suc_eq_0_disj)
qed simp_all

lemma tryMatch_SomeD:
  assumes "tryMatch ch movesSAN op = Some r"
  shows "\<exists>target. replay ch (new_chess ch) [] (pgnTokens (pgn op)) = Some target \<and>
           compare_prefix target movesSAN \<and>
           r = \<lparr>m_eco = eco op, m_name = name op, matchedLen = length target\<rparr>"
  using assms unfolding tryMatch_def by (auto split: option.splits if_splits)

text \<open>
  What a match holds: its matchedLen is the number of moves of the entry's sequence,
  whatever the length of the history; the comparison covers the moves below both lengths.
\<close>

lemma tryMatch_entry_length:
  assumes "tryMatch ch movesSAN op = Some r"
  shows "matchedLen r = length (pgnTokens (pgn op)) \<and>
     (matchedLen r \<le> length movesSAN \<longleftrightarrow> length (pgnTokens (pgn op)) \<le> length movesSAN) \<and>
     (\<exists>target. replay ch (new_chess ch) [] (pgnTokens (pgn op)) = Some target \<and>
        length target = matchedLen r \<and>
        (\<forall>i < min (matchedLen r) (length movesSAN).
            strip_decor (target ! i) = strip_decor (movesSAN ! i)))"
proof -
  from tryMatch_SomeD [OF assms] obtain target where
    rp: "replay ch (new_chess ch) [] (pgnTokens (pgn op)) = Some target"
    and cp: "compare_prefix target movesSAN"
    and r: "r = \<lparr>m_eco = eco op, m_name = name op, matchedLen = length target\<rparr>"
    by blast
  from replay_result [OF rp] have len: "length target = length (pgnTokens (pgn op))" by simp
  from cp have "\<forall>i < min (length target) (length movesSAN).
      strip_decor (target ! i) = strip_decor (movesSAN ! i)"
    by (simp only: compare_prefix_iff)
  with rp r len show ?thesis by simp
qed

text \<open>
  C6, at the histories e4 and the empty one. The specification bounds the matched length
  of a match by the length of the entry's move sequence and by the length of the game's
  move history, the comparison counting only up to the shorter of the two. The source
  stores the number of all replayed book moves instead: after 1. e4 the entry of the
  Sicilian Defense (e4 c5) matches with matchedLen 2, above the length 1 of the history,
  and the matcher answers Italian Game with matchedLen 5 for the history e4 and for the
  empty history.
\<close>

theorem tryMatch_matchedLen_exceeds_history:
  "tryMatch frag [''e4''] \<lparr>eco = ''B30'', name = ''Sicilian Defense'', pgn = ''e4 c5''\<rparr> =
     Some \<lparr>m_eco = ''B30'', m_name = ''Sicilian Defense'', matchedLen = 2\<rparr>
   \<and> \<not> matchedLen \<lparr>m_eco = ''B30'', m_name = ''Sicilian Defense'', matchedLen = 2\<rparr>
         \<le> length [''e4'']
   \<and> detectOpening frag [''e4''] = Some \<lparr>m_eco = ''C50'', m_name = ''Italian Game'', matchedLen = 5\<rparr>
   \<and> detectOpening frag [] = Some \<lparr>m_eco = ''C50'', m_name = ''Italian Game'', matchedLen = 5\<rparr>"
  by code_simp

lemma pick_step:
  "find (longest_in (b # g # cs)) (b # g # cs) =
   find (longest_in ((if matchedLen g > matchedLen b then g else b) # cs))
     ((if matchedLen g > matchedLen b then g else b) # cs)"
proof (cases "matchedLen g > matchedLen b")
  case True
  have eq: "longest_in (b # g # cs) = longest_in (g # cs)"
    using True by (intro ext) (auto simp: longest_in_def)
  have nb: "\<not> longest_in (g # cs) b"
    using True by (simp add: longest_in_def)
  show ?thesis
    using True nb by (simp add: eq)
next
  case False
  have eq: "longest_in (b # g # cs) = longest_in (b # cs)"
    using False by (intro ext) (auto simp: longest_in_def)
  have ng: "\<not> longest_in (b # cs) b \<Longrightarrow> \<not> longest_in (b # cs) g"
    using False by (auto simp: longest_in_def)
  show ?thesis
    using False ng by (auto simp: eq)
qed

lemma detect_from_first_longest:
  "detect_from ch ms book best =
     first_longest (case best of None \<Rightarrow> List.map_filter (tryMatch ch ms) book
                    | Some b \<Rightarrow> b # List.map_filter (tryMatch ch ms) book)"
proof (induction book arbitrary: best)
  case Nil
  show ?case by (cases best) (simp_all add: first_longest_def longest_in_def)
next
  case (Cons op ops)
  show ?case
  proof (cases "tryMatch ch ms op")
    case None
    then show ?thesis by (cases best) (simp_all add: Cons.IH)
  next
    case (Some got)
    show ?thesis
    proof (cases best)
      case None
      with Some show ?thesis by (simp add: Cons.IH)
    next
      case (Some b)
      with \<open>tryMatch ch ms op = Some got\<close> show ?thesis
        using pick_step [of b got "List.map_filter (tryMatch ch ms) ops"]
        by (simp add: Cons.IH first_longest_def)
    qed
  qed
qed


lemma exists_longest: "cs \<noteq> [] \<Longrightarrow> \<exists>c \<in> set cs. longest_in cs c"
proof -
  assume ne: "cs \<noteq> []"
  then have "Max (matchedLen ` set cs) \<in> matchedLen ` set cs"
    by (intro Max_in) simp_all
  then obtain c where c: "c \<in> set cs" "matchedLen c = Max (matchedLen ` set cs)" by auto
  have "\<forall>d \<in> set cs. matchedLen d \<le> matchedLen c"
    using c by (simp add: Max_ge)
  with c show ?thesis unfolding longest_in_def by blast
qed

lemma first_longest_None_iff: "first_longest cs = None \<longleftrightarrow> cs = []"
proof
  assume n: "first_longest cs = None"
  show "cs = []"
  proof (rule ccontr)
    assume "cs \<noteq> []"
    from exists_longest [OF this] n show False
      by (auto simp: first_longest_def find_None_iff)
  qed
next
  assume "cs = []"
  then show "first_longest cs = None" by (simp add: first_longest_def)
qed

lemma first_longest_SomeD:
  assumes "first_longest cs = Some r"
  shows "\<exists>i < length cs. cs ! i = r \<and> (\<forall>d \<in> set cs. matchedLen d \<le> matchedLen r) \<and>
           (\<forall>j < i. matchedLen (cs ! j) < matchedLen r)"
proof -
  from assms obtain i where i: "i < length cs" "longest_in cs (cs ! i)" "r = cs ! i"
    and first: "\<forall>j < i. \<not> longest_in cs (cs ! j)"
    unfolding first_longest_def find_Some_iff by blast
  have "matchedLen (cs ! j) < matchedLen r" if "j < i" for j
  proof -
    from first that have "\<not> longest_in cs (cs ! j)" by blast
    then obtain d where d: "d \<in> set cs" "matchedLen (cs ! j) < matchedLen d"
      unfolding longest_in_def by (auto simp: not_le)
    from i(2) d(1) have "matchedLen d \<le> matchedLen r"
      unfolding longest_in_def i(3) by blast
    with d(2) show ?thesis by simp
  qed
  with i show ?thesis unfolding longest_in_def by blast
qed

lemma tokens_OPENINGS:
  "map (\<lambda>op. pgnTokens (pgn op)) OPENINGS =
    [[''e4''], [''e4'', ''e5'', ''Nf3''], [''e4'', ''e5'', ''Nf3'', ''Nc6'', ''Bc4''],
     [''e4'', ''e5'', ''Nf3'', ''Nc6'', ''Bb5''], [''e4'', ''c5''], [''e4'', ''e6''],
     [''e4'', ''d5''], [''d4'', ''d5''], [''d4'', ''d5'', ''c4'', ''c6''],
     [''d4'', ''d5'', ''c4'', ''dxc4''], [''d4'', ''d5'', ''c4'', ''e6''],
     [''d4'', ''Nf6'', ''c4'', ''g6'']]"
  by code_simp

lemma first_token_mismatch:
  assumes tk: "pgnTokens (pgn op) = tok # toks"
    and two: "length tok = 2"
    and ne: "strip_decor tok \<noteq> strip_decor h"
    and sq: "squares_named ch"
  shows "tryMatch ch (h # hs) op = None"
proof (cases "find_token (legal_moves ch (new_chess ch)) tok")
  case None
  then show ?thesis by (simp add: tryMatch_def tk)
next
  case (Some m)
  then have mem: "m \<in> set (legal_moves ch (new_chess ch))"
    and hit: "from_sq m @ to_sq m = tok \<or> strip_decor (san m) = strip_decor tok"
    unfolding find_token_def find_Some_iff by auto
  from sq mem have "length (from_sq m @ to_sq m) = 4"
    unfolding squares_named_def list_all_iff by simp
  with two hit have st: "strip_decor (san m) = strip_decor tok" by auto
  show ?thesis
  proof (cases "replay ch (new_chess ch) [] (tok # toks)")
    case None
    then show ?thesis by (simp add: tryMatch_def tk)
  next
    case (Some t)
    with \<open>find_token (legal_moves ch (new_chess ch)) tok = Some m\<close>
    have "replay ch
          (after_move ch (new_chess ch)
             \<lparr>mo_from = from_sq m, mo_to = to_sq m,
              mo_promotion = Some (promotion_or_q (promotion m))\<rparr>)
          ([] @ [san m]) toks = Some t" by simp
    from replay_result [OF this] obtain t' where "t = san m # t'"
      by (auto simp: prefix_def)
    with st ne have "\<not> compare_prefix t (h # hs)" by simp
    with Some show ?thesis by (simp add: tryMatch_def tk)
  qed
qed

lemma a3_no_match:
  assumes "squares_named ch"
  shows "List.map_filter (tryMatch ch [''a3'']) OPENINGS = []"
proof -
  have "tryMatch ch [''a3''] op = None" if "op \<in> set OPENINGS" for op
  proof -
    from that have "pgnTokens (pgn op) \<in> set (map (\<lambda>op. pgnTokens (pgn op)) OPENINGS)"
      by simp
    then obtain toks where "pgnTokens (pgn op) = ''e4'' # toks \<or> pgnTokens (pgn op) = ''d4'' # toks"
      unfolding tokens_OPENINGS by auto
    then show ?thesis
      using first_token_mismatch [OF _ _ _ assms, of op "''e4''" toks "''a3''" "[]"]
        first_token_mismatch [OF _ _ _ assms, of op "''d4''" toks "''a3''" "[]"]
      by (auto simp: strip_decor_def)
  qed
  then show ?thesis
    by (simp add: List.map_filter_def filter_empty_conv)
qed

text \<open>
  The loop keeps the first candidate among those of the greatest matchedLen, and answers
  null exactly when no entry is a candidate, as for the history a3.
\<close>

lemma detectOpening_selects:
  "(case detect_from ch movesSAN book None of
      None \<Rightarrow> List.map_filter (tryMatch ch movesSAN) book = []
    | Some r \<Rightarrow>
        (\<exists>i < length (List.map_filter (tryMatch ch movesSAN) book).
           List.map_filter (tryMatch ch movesSAN) book ! i = r \<and>
           (\<forall>d \<in> set (List.map_filter (tryMatch ch movesSAN) book).
               matchedLen d \<le> matchedLen r) \<and>
           (\<forall>j < i. matchedLen (List.map_filter (tryMatch ch movesSAN) book ! j)
                      < matchedLen r)))
   \<and> detectOpening ch movesSAN = detect_from ch movesSAN OPENINGS None
   \<and> (tryMatch ch movesSAN op \<noteq> None \<longleftrightarrow>
        (\<exists>target. replay ch (new_chess ch) [] (pgnTokens (pgn op)) = Some target \<and>
           (\<forall>i < min (length target) (length movesSAN).
               strip_decor (target ! i) = strip_decor (movesSAN ! i))))
   \<and> (squares_named ch \<longrightarrow> detectOpening ch [''a3''] = None)"
proof -
  let ?cs = "List.map_filter (tryMatch ch movesSAN) book"
  have d: "detect_from ch movesSAN book None = first_longest ?cs"
    by (simp add: detect_from_first_longest)
  have 1: "(case detect_from ch movesSAN book None of
      None \<Rightarrow> ?cs = []
    | Some r \<Rightarrow>
        (\<exists>i < length ?cs. ?cs ! i = r \<and> (\<forall>d \<in> set ?cs. matchedLen d \<le> matchedLen r) \<and>
           (\<forall>j < i. matchedLen (?cs ! j) < matchedLen r)))"
  proof (cases "first_longest ?cs")
    case None
    then have e: "?cs = []" by (simp only: first_longest_None_iff)
    show ?thesis unfolding d None using e by simp
  next
    case (Some r)
    from first_longest_SomeD [OF this] show ?thesis unfolding d Some by simp
  qed
  have 3: "tryMatch ch movesSAN op \<noteq> None \<longleftrightarrow>
        (\<exists>target. replay ch (new_chess ch) [] (pgnTokens (pgn op)) = Some target \<and>
           (\<forall>i < min (length target) (length movesSAN).
               strip_decor (target ! i) = strip_decor (movesSAN ! i)))"
    unfolding tryMatch_def by (auto simp: compare_prefix_iff split: option.splits)
  have 4: "squares_named ch \<longrightarrow> detectOpening ch [''a3''] = None"
    by (simp add: detectOpening_def detect_from_first_longest a3_no_match first_longest_def)
  from 1 3 4 show ?thesis by (simp add: detectOpening_def)
qed

text \<open>
  C7, at the history e4 e5 Nf3. The specification has the matcher keep, among the entries
  that replay fully and agree with the history on the compared prefix, the candidate with
  the greatest number of matched moves, the first in book order on a tie, and answer null
  when there is no candidate. Here the King's Knight Opening, the Italian Game and the Ruy
  Lopez each agree with the history on three moves, so the first of them is to be kept;
  the source compares the lengths of the entries and keeps the Italian Game. For the
  history a3 it answers null.
\<close>

theorem detectOpening_keeps_longer_entry:
  "List.map_filter (tryMatch frag [''e4'', ''e5'', ''Nf3'']) OPENINGS =
     [\<lparr>m_eco = ''C20'', m_name = ''King's Pawn Game'', matchedLen = 1\<rparr>,
      \<lparr>m_eco = ''C40'', m_name = ''King's Knight Opening'', matchedLen = 3\<rparr>,
      \<lparr>m_eco = ''C50'', m_name = ''Italian Game'', matchedLen = 5\<rparr>,
      \<lparr>m_eco = ''C60'', m_name = ''Ruy Lopez'', matchedLen = 5\<rparr>]
   \<and> List.map_filter (spec_tryMatch frag [''e4'', ''e5'', ''Nf3'']) OPENINGS =
     [\<lparr>m_eco = ''C20'', m_name = ''King's Pawn Game'', matchedLen = 1\<rparr>,
      \<lparr>m_eco = ''C40'', m_name = ''King's Knight Opening'', matchedLen = 3\<rparr>,
      \<lparr>m_eco = ''C50'', m_name = ''Italian Game'', matchedLen = 3\<rparr>,
      \<lparr>m_eco = ''C60'', m_name = ''Ruy Lopez'', matchedLen = 3\<rparr>]
   \<and> detectOpening frag [''e4'', ''e5'', ''Nf3''] = Some \<lparr>m_eco = ''C50'', m_name = ''Italian Game'', matchedLen = 5\<rparr>
   \<and> spec_detectOpening frag [''e4'', ''e5'', ''Nf3''] = Some \<lparr>m_eco = ''C40'', m_name = ''King's Knight Opening'', matchedLen = 3\<rparr>
   \<and> detectOpening frag [''a3''] = None"
  by code_simp

section \<open>Properties of the rationale generator\<close>

text \<open>
  chess.js lists the moves of the side to move only, so every listed move has the colour
  of \<^verbatim>\<open>after.turn()\<close>. The list \<^verbatim>\<open>attackers\<close> keeps the moves of the other colour
  and is empty, and the phrase is never pushed.
\<close>

lemma attackers_empty:
  assumes "\<forall>m \<in> set (legal_moves ch after). color m = side_to_move ch after"
  shows "attackers ch move after = []"
proof -
  have "us_of ch after \<noteq> side_to_move ch after"
    by (simp add: us_of_def)
  with assms show ?thesis
    by (auto simp: attackers_def filter_empty_conv)
qed

lemma under_defended_dead:
  assumes "\<forall>m \<in> set (legal_moves ch after). color m = side_to_move ch after"
  shows "under_defended \<notin> set (explain_parts ch move before after)"
  by (simp add: explain_parts_def Let_def attackers_empty [OF assms] under_defended_def)

text \<open>
  C8, at Black's move 1... d5 after 1. e4. The specification has the phrase emitted exactly when
  the opposing legal moves onto the destination square outnumber the mover's own. Here
  one opposing move (exd5) lands on d5 and no move of the mover's does, and the text has
  no such phrase: the source's attackers are empty and its defenders are the opposing
  move.
\<close>

theorem under_defended_not_emitted:
  "explainHeuristic frag (mv ''b'' ''p'' ''d7'' ''d5'' ''b'' ''d5'') (new_chess frag)
       (load_fen frag fen_e4_d5) = ''You fought for the center.''
   \<and> under_defended \<notin> set (explain_parts frag (mv ''b'' ''p'' ''d7'' ''d5'' ''b'' ''d5'')
         (new_chess frag) (load_fen frag fen_e4_d5))
   \<and> opposing_moves_onto frag (mv ''b'' ''p'' ''d7'' ''d5'' ''b'' ''d5'') (load_fen frag fen_e4_d5) =
       [mv ''w'' ''p'' ''e4'' ''d5'' ''c'' ''exd5'']
   \<and> own_moves_onto frag (mv ''b'' ''p'' ''d7'' ''d5'' ''b'' ''d5'') (load_fen frag fen_e4_d5) = []
   \<and> attackers frag (mv ''b'' ''p'' ''d7'' ''d5'' ''b'' ''d5'') (load_fen frag fen_e4_d5) = []
   \<and> defenders frag (mv ''b'' ''p'' ''d7'' ''d5'' ''b'' ''d5'') (load_fen frag fen_e4_d5) =
       [mv ''w'' ''p'' ''e4'' ''d5'' ''c'' ''exd5'']"
  by code_simp

section \<open>Properties of the engine adapter\<close>

subsection \<open>What a listener changes\<close>

lemma on_info_promise [simp]: "promise (on_info legal line r) = promise r"
  by (simp add: on_info_def Let_def split: option.splits prod.splits)

lemma on_info_bestmove [simp]: "r_bestmove (on_info legal line r) = r_bestmove r"
  by (simp add: on_info_def Let_def split: option.splits prod.splits)

lemma resolve_fields [simp]:
  "posted (resolve k v st) = posted st" "ready (resolve k v st) = ready st"
  "engine (resolve k v st) = engine st" "calls (resolve k v st) = calls st"
  "timers (resolve k v st) = timers st"
  by (simp_all add: resolve_def)

lemma off_fields [simp]:
  "posted (off k st) = posted st" "ready (off k st) = ready st"
  "engine (off k st) = engine st" "calls (off k st) = calls st"
  "timers (off k st) = timers st" "requests (off k st) = requests st"
  by (simp_all add: off_def)

lemma listener_fields [simp]:
  "posted (listener legal k line st) = posted st" "ready (listener legal k line st) = ready st"
  "engine (listener legal k line st) = engine st" "calls (listener legal k line st) = calls st"
  "timers (listener legal k line st) = timers st"
  by (simp_all add: listener_def Let_def)

lemma foldl_listener_fields [simp]:
  "posted (foldl (\<lambda>s k. listener legal k text s) st ks) = posted st"
  "ready (foldl (\<lambda>s k. listener legal k text s) st ks) = ready st"
  "engine (foldl (\<lambda>s k. listener legal k text s) st ks) = engine st"
  "calls (foldl (\<lambda>s k. listener legal k text s) st ks) = calls st"
  "timers (foldl (\<lambda>s k. listener legal k text s) st ks) = timers st"
  by (induction ks arbitrary: st) simp_all

lemma dispatch_fields [simp]:
  "posted (dispatch legal text st) = posted st" "ready (dispatch legal text st) = ready st"
  "engine (dispatch legal text st) = engine st" "calls (dispatch legal text st) = calls st"
  "timers (dispatch legal text st) = timers st"
  by (simp_all add: dispatch_def)

lemma promise_resolve:
  "promise (requests (resolve j v st) k) =
     (if j = k \<and> promise (requests st k) = None then Some v else promise (requests st k))"
  by (simp add: resolve_def)

lemma listeners_resolve [simp]: "listeners (resolve k v st) = listeners st"
  by (simp add: resolve_def)

lemma listeners_off [simp]: "listeners (off k st) = filter (\<lambda>f. f \<noteq> k) (listeners st)"
  by (simp add: off_def)

subsection \<open>Listeners and pending requests\<close>

lemma pending_cong:
  assumes "calls st' = calls st"
    and "\<And>j. promise (requests st' j) = promise (requests st j)"
  shows "pending st' = pending st"
  using assms by (simp add: pending_def)

lemma pending_off [simp]: "pending (off k st) = pending st"
  by (simp add: pending_def off_def)

lemma pending_resolve: "pending (resolve k v st) = filter (\<lambda>j. j \<noteq> k) (pending st)"
proof (cases "promise (requests st k) = None")
  case True
  have "filter (\<lambda>j. promise (if j = k then (requests st k)\<lparr>promise := Some v\<rparr> else requests st j) = None) xs =
        filter (\<lambda>j. j \<noteq> k) (filter (\<lambda>j. promise (requests st j) = None) xs)" for xs
    by (induction xs) auto
  with True show ?thesis by (simp add: pending_def resolve_def fun_upd_def)
next
  case False
  then have "k \<notin> set (pending st)" by (simp add: pending_def)
  then have "filter (\<lambda>j. j \<noteq> k) (pending st) = pending st"
    by (auto simp: filter_id_conv)
  with False show ?thesis by (auto simp: resolve_def)
qed

lemma synced_settle:
  assumes "synced st"
  shows "synced (resolve k v (off k st))"
  using assms by (simp add: synced_def pending_resolve)

lemma synced_requests_upd:
  assumes "synced st" and "promise r = promise (requests st k)"
  shows "synced (st\<lparr>requests := (requests st)(k := r)\<rparr>)"
proof -
  have "pending (st\<lparr>requests := (requests st)(k := r)\<rparr>) = pending st"
    by (rule pending_cong) (simp_all add: assms(2))
  with assms(1) show ?thesis by (simp add: synced_def)
qed

lemma synced_listener:
  assumes "synced st"
  shows "synced (listener legal k line st)"
proof -
  define st1 where "st1 =
    (if prefix ''info '' line
     then st\<lparr>requests := (requests st)(k := on_info legal line (requests st k))\<rparr> else st)"
  define st2 where "st2 =
    st1\<lparr>requests := (requests st1)(k := (requests st1 k)\<lparr>r_bestmove := second_word line\<rparr>)\<rparr>"
  have s1: "synced st1"
    unfolding st1_def using assms by (simp add: synced_requests_upd)
  have s2: "synced st2"
    unfolding st2_def using s1 by (simp add: synced_requests_upd)
  have "listener legal k line st =
      (if line = [] then st
       else if prefix ''bestmove'' line
            then resolve k (observed (requests (off k st2) k)) (off k st2) else st1)"
    by (simp add: listener_def Let_def st1_def st2_def)
  with assms s1 s2 show ?thesis by (simp add: synced_settle)
qed

lemma synced_dispatch_list:
  "synced st \<Longrightarrow> synced (foldl (\<lambda>s k. listener legal k text s) st ks)"
  by (induction ks arbitrary: st) (simp_all add: synced_listener)

lemma synced_dispatch: "synced st \<Longrightarrow> synced (dispatch legal text st)"
  by (simp add: dispatch_def synced_dispatch_list)

lemma synced_fields:
  assumes "synced st" "listeners st' = listeners st" "calls st' = calls st" "requests st' = requests st"
  shows "synced st'"
  using assms by (simp add: synced_def pending_def)

lemma synced_onMsg_movetime: "synced st \<Longrightarrow> synced (onMsg_movetime elo multipv legal text st)"
  unfolding onMsg_movetime_def Let_def
  by (intro synced_dispatch) (auto elim!: synced_fields)

lemma synced_onMsg_depth: "synced st \<Longrightarrow> synced (onMsg_depth elo multipv legal text st)"
  unfolding onMsg_depth_def Let_def
  by (intro synced_dispatch) (auto elim!: synced_fields)

lemma pending_new:
  assumes "calls st' = Suc (calls st)"
    and "requests st' = (requests st)(calls st := r)"
  shows "pending st' = pending st @ (if promise r = None then [calls st] else [])"
proof -
  have "filter (\<lambda>k. promise (((requests st)(calls st := r)) k) = None) [0 ..< calls st] =
        filter (\<lambda>k. promise (requests st k) = None) [0 ..< calls st]"
    by (rule filter_cong) simp_all
  then show ?thesis by (simp add: pending_def assms)
qed

lemma synced_analyze_movetime: "synced st \<Longrightarrow> synced (analyze_movetime f t st)"
  unfolding synced_def
  by (subst pending_new [where st = st and r = "requests (analyze_movetime f t st) (calls st)"])
    (simp_all add: analyze_movetime_def Let_def new_request_def)

lemma synced_analyze_depth: "synced st \<Longrightarrow> synced (analyze_depth f d st)"
  unfolding synced_def
  by (subst pending_new [where st = st and r = "requests (analyze_depth f d st) (calls st)"])
    (simp_all add: analyze_depth_def Let_def new_request_def)

lemma synced_timeout: "synced st \<Longrightarrow> synced (timeout_fires k st)"
  unfolding timeout_fires_def Let_def
  by (auto intro!: synced_settle elim!: synced_fields)

lemma synced_sync_options: "synced st \<Longrightarrow> synced (sync_options e m st)"
  unfolding sync_options_def by (auto elim!: synced_fields)

lemma synced_step_movetime: "synced st \<Longrightarrow> synced (step_movetime elo multipv legal st e)"
  by (cases e)
    (simp_all add: synced_analyze_movetime synced_onMsg_movetime synced_timeout synced_sync_options)

lemma synced_step_depth: "synced st \<Longrightarrow> synced (step_depth elo multipv legal st e)"
  by (cases e)
    (simp_all add: synced_analyze_depth synced_onMsg_depth synced_sync_options)

lemma synced_run_movetime: "synced st \<Longrightarrow> synced (run_movetime elo multipv legal st evs)"
  unfolding run_movetime_def
  by (induction evs arbitrary: st) (simp_all add: synced_step_movetime)

lemma synced_run_depth: "synced st \<Longrightarrow> synced (run_depth elo multipv legal st evs)"
  unfolding run_depth_def
  by (induction evs arbitrary: st) (simp_all add: synced_step_depth)

lemma synced_mount: "synced (mount ctor)"
  by (simp add: synced_def pending_def mount_def)

text \<open>
  C2 (as amended). analyze posts an explicit stop before its position and go commands and
  appends its own listener; it detaches no listener of an earlier request. At every point
  in time the active listeners are exactly the listeners of the requests that are still
  pending, one for each, in the order of the calls: a listener is detached only when its
  own request resolves. So at most one listener is active as long as calls do not overlap.
\<close>

theorem listeners_are_pending:
  "listeners (run_movetime elo multipv legal (mount ctor) evs) =
     pending (run_movetime elo multipv legal (mount ctor) evs)
   \<and> listeners (run_depth elo multipv legal (mount ctor) evs) =
     pending (run_depth elo multipv legal (mount ctor) evs)
   \<and> (engine st \<longrightarrow>
        listeners (analyze_movetime f t st) = listeners st @ [calls st] \<and>
        posted (analyze_movetime f t st) = posted st @ [Stop, PositionFen f, GoMovetime t])
   \<and> (engine st \<longrightarrow>
        listeners (analyze_depth f t st) = listeners st @ [calls st] \<and>
        posted (analyze_depth f t st) = posted st @ [Stop, PositionFen f, GoDepth t])"
proof -
  have "synced (run_movetime elo multipv legal (mount ctor) evs)"
    by (rule synced_run_movetime) (rule synced_mount)
  moreover have "synced (run_depth elo multipv legal (mount ctor) evs)"
    by (rule synced_run_depth) (rule synced_mount)
  ultimately show ?thesis
    by (simp add: synced_def analyze_movetime_def analyze_depth_def Let_def)
qed

text \<open>
  Two calls with no line of the engine between them leave two listeners active, in
  either variant; the next \<^verbatim>\<open>bestmove\<close> line, sent for the first search, resolves the
  second request as well.
\<close>

theorem two_listeners_active:
  "\<not> length (listeners (run_movetime 1200 3 frag_legal (mount True)
         [Analyze fen_start 450, Analyze fen_e4 450])) \<le> 1
   \<and> promise (requests (run_movetime 1200 3 frag_legal (mount True)
         [Analyze fen_start 450, Analyze fen_e4 450, Message ''bestmove e2e4'']) 1) =
       Some \<lparr>bestmove = Some ''e2e4'', cp = 0, pv_lines = []\<rparr>
   \<and> \<not> length (listeners (run_depth 1200 3 frag_legal (mount True)
         [Analyze fen_start 16, Analyze fen_e4 16])) \<le> 1
   \<and> promise (requests (run_depth 1200 3 frag_legal (mount True)
         [Analyze fen_start 16, Analyze fen_e4 16, Message ''bestmove e2e4'']) 1) =
       Some \<lparr>bestmove = Some ''e2e4'', cp = 0, pv_lines = []\<rparr>"
  by code_simp

theorem listeners_are_pending_witness:
  "engine (mount True)
   \<and> listeners (analyze_movetime fen_start 450 (mount True)) = [0]
   \<and> listeners (run_movetime 1200 3 frag_legal (mount True)
        [Analyze fen_start 450, Message ''bestmove e2e4'', Analyze fen_e4 450]) = [1]"
proof -
  have e: "engine (mount True)" "listeners (mount True) = []" "calls (mount True) = 0"
    by (simp_all add: mount_def)
  have p: "pending (run_movetime 1200 3 frag_legal (mount True)
        [Analyze fen_start 450, Message ''bestmove e2e4'', Analyze fen_e4 450]) = [1]"
    by code_simp
  from listeners_are_pending [of 1200 3 frag_legal True
      "[Analyze fen_start 450, Message ''bestmove e2e4'', Analyze fen_e4 450]"
      "mount True" fen_start 450]
  show ?thesis using e p by simp
qed

subsection \<open>Settling a request\<close>

lemma listener_quiet:
  "\<not> prefix ''bestmove'' line \<Longrightarrow>
     promise (requests (listener legal j line st) k) = promise (requests st k)"
  by (simp add: listener_def Let_def)

lemma foldl_listener_quiet:
  "\<not> prefix ''bestmove'' text \<Longrightarrow>
     promise (requests (foldl (\<lambda>s k. listener legal k text s) st ks) k) = promise (requests st k)"
  by (induction ks arbitrary: st) (simp_all add: listener_quiet)

lemma listener_settled:
  "promise (requests st k) = Some v \<Longrightarrow> promise (requests (listener legal j line st) k) = Some v"
  by (auto simp: listener_def Let_def promise_resolve)

lemma foldl_listener_settled:
  "promise (requests st k) = Some v \<Longrightarrow>
     promise (requests (foldl (\<lambda>s k. listener legal k text s) st ks) k) = Some v"
  by (induction ks arbitrary: st) (simp_all add: listener_settled)

lemma step_depth_quiet:
  assumes "no_bestmove e" "k < calls st"
  shows "promise (requests (step_depth elo multipv legal st e) k) = promise (requests st k)
         \<and> k < calls (step_depth elo multipv legal st e)"
  using assms
  by (cases e)
    (auto simp: no_bestmove_def analyze_depth_def Let_def onMsg_depth_def dispatch_def
      foldl_listener_quiet sync_options_def)

lemma run_depth_quiet:
  assumes "list_all no_bestmove evs" "k < calls st"
  shows "promise (requests (run_depth elo multipv legal st evs) k) = promise (requests st k)"
  using assms unfolding run_depth_def
proof (induction evs arbitrary: st)
  case Nil
  show ?case by simp
next
  case (Cons e evs)
  from Cons.prems have e: "no_bestmove e" and r: "list_all no_bestmove evs" by simp_all
  from step_depth_quiet [OF e Cons.prems(2)] Cons.IH [OF r] show ?case by simp
qed

text \<open>
  C1, in the depth variant. The specification has every call to analyze resolve exactly once, also
  when the engine never emits a bestmove line, since a timeout then resolves it with what
  has been observed. The analyze of the depth variant sets no timeout: once a call has
  registered its listener, whatever happens next short of a bestmove line (other lines of
  the engine, further calls, the second effect) leaves its promise pending, and no
  timeout is ever set.
\<close>

theorem analyze_depth_never_settles:
  assumes "engine st" and "list_all no_bestmove evs"
  shows "promise (requests (run_depth elo multipv legal (analyze_depth f d st) evs) (calls st)) = None
    \<and> timers (run_depth elo multipv legal (analyze_depth f d st) evs) = timers st"
proof -
  have c: "calls st < calls (analyze_depth f d st)"
    by (simp add: analyze_depth_def Let_def)
  have p: "promise (requests (analyze_depth f d st) (calls st)) = None"
    using assms(1) by (simp add: analyze_depth_def Let_def new_request_def)
  have t: "timers (run_depth elo multipv legal s evs) = timers s" for s
    unfolding run_depth_def
  proof (induction evs arbitrary: s)
    case (Cons e evs)
    have "timers (step_depth elo multipv legal s e) = timers s"
      by (cases e) (simp_all add: analyze_depth_def Let_def onMsg_depth_def sync_options_def)
    with Cons.IH show ?case by simp
  qed simp
  from run_depth_quiet [OF assms(2) c] p t show ?thesis
    by (simp add: analyze_depth_def Let_def)
qed

theorem analyze_depth_never_settles_witness:
  "engine (mount True)
   \<and> list_all no_bestmove [Message ''uciok'', Message ''info depth 1 score cp 20 multipv 1 pv e2e4'',
        Configure 1200 3, Timeout 0]
   \<and> promise (requests (run_depth 1200 3 frag_legal
         (analyze_depth fen_start 16 (mount True))
         [Message ''uciok'', Message ''info depth 1 score cp 20 multipv 1 pv e2e4'',
          Configure 1200 3, Timeout 0]) (calls (mount True))) = None"
proof -
  have e: "engine (mount True)" by (simp add: mount_def)
  have q: "list_all no_bestmove [Message ''uciok'',
        Message ''info depth 1 score cp 20 multipv 1 pv e2e4'', Configure 1200 3, Timeout 0]"
    by (simp add: no_bestmove_def)
  from analyze_depth_never_settles [OF e q] e q show ?thesis by blast
qed

text \<open>
  The movetime variant does what the specification says: the call sets a timeout of the search
  time plus 600 ms; when it fires the promise is settled, with the values observed so far
  if it was pending; and a settled promise keeps its value.
\<close>

lemma step_movetime_settled:
  assumes "promise (requests st k) = Some v" "k < calls st"
  shows "promise (requests (step_movetime elo multipv legal st e) k) = Some v
         \<and> k < calls (step_movetime elo multipv legal st e)"
  using assms
  by (cases e)
    (auto simp: analyze_movetime_def Let_def onMsg_movetime_def dispatch_def
      foldl_listener_settled sync_options_def timeout_fires_def promise_resolve)

lemma run_movetime_settled:
  assumes "promise (requests st k) = Some v" "k < calls st"
  shows "promise (requests (run_movetime elo multipv legal st evs) k) = Some v"
  using assms unfolding run_movetime_def
proof (induction evs arbitrary: st)
  case Nil
  then show ?case by simp
next
  case (Cons e evs)
  from step_movetime_settled [OF Cons.prems] Cons.IH show ?case by simp
qed

lemma step_movetime_timer:
  assumes "(k, d) \<in> set (timers st)" "e \<noteq> Timeout k" "k < calls st"
  shows "(k, d) \<in> set (timers (step_movetime elo multipv legal st e))
         \<and> k < calls (step_movetime elo multipv legal st e)"
  using assms
  by (cases e)
    (auto simp: analyze_movetime_def Let_def onMsg_movetime_def sync_options_def
      timeout_fires_def)

lemma run_movetime_timer:
  assumes "(k, d) \<in> set (timers st)" "Timeout k \<notin> set evs" "k < calls st"
  shows "(k, d) \<in> set (timers (run_movetime elo multipv legal st evs))
         \<and> k < calls (run_movetime elo multipv legal st evs)"
  using assms unfolding run_movetime_def
proof (induction evs arbitrary: st)
  case Nil
  then show ?case by simp
next
  case (Cons e evs)
  from Cons.prems have "e \<noteq> Timeout k" "Timeout k \<notin> set evs" by auto
  with step_movetime_timer [OF Cons.prems(1) this(1) Cons.prems(3)] Cons.IH
  show ?case by simp
qed

lemma timeout_settles:
  assumes "(k, d) \<in> set (timers st)"
  shows "promise (requests (timeout_fires k st) k) =
     Some (case promise (requests st k) of None \<Rightarrow> observed (requests st k) | Some v \<Rightarrow> v)"
proof -
  from assms have "k \<in> set (map fst (timers st))" by force
  then show ?thesis
    by (simp add: timeout_fires_def Let_def promise_resolve split: option.splits)
qed

lemma analyze_movetime_settles_at_timeout:
  assumes "engine st" and "Timeout (calls st) \<notin> set pre"
  shows "\<exists>v. promise (requests (run_movetime elo multipv legal (analyze_movetime f t st)
                  (pre @ Timeout (calls st) # post)) (calls st)) = Some v"
proof -
  let ?k = "calls st"
  let ?s0 = "analyze_movetime f t st"
  let ?s1 = "run_movetime elo multipv legal ?s0 pre"
  have t0: "(?k, t + 600) \<in> set (timers ?s0)" and c0: "?k < calls ?s0"
    using assms(1) by (simp_all add: analyze_movetime_def Let_def)
  from run_movetime_timer [OF t0 assms(2) c0]
  have t1: "(?k, t + 600) \<in> set (timers ?s1)" and c1: "?k < calls ?s1" by simp_all
  from timeout_settles [OF t1] obtain v where
    v: "promise (requests (timeout_fires ?k ?s1) ?k) = Some v" by blast
  have c2: "?k < calls (timeout_fires ?k ?s1)"
    using c1 by (simp add: timeout_fires_def Let_def)
  have "run_movetime elo multipv legal ?s0 (pre @ Timeout ?k # post) =
        run_movetime elo multipv legal (timeout_fires ?k ?s1) post"
    by (simp add: run_movetime_def)
  with run_movetime_settled [OF v c2] show ?thesis by simp
qed

text \<open>
  When the timeout settles a pending request, the value has no best move, the last score
  seen and the variations seen; with no line seen it is the neutral result.
\<close>

lemma tidy_mount: "tidy (mount ctor)"
  by (simp add: tidy_def mount_def new_request_def)

lemma resolve_variables [simp]:
  "r_bestmove (requests (resolve j v st) k) = r_bestmove (requests st k)"
  "lastCp (requests (resolve j v st) k) = lastCp (requests st k)"
  "r_lines (requests (resolve j v st) k) = r_lines (requests st k)"
  by (simp_all add: resolve_def)

lemma tidy_listener: "tidy st \<Longrightarrow> tidy (listener legal j line st)"
  by (auto simp: tidy_def listener_def Let_def promise_resolve)

lemma tidy_foldl_listener: "tidy st \<Longrightarrow> tidy (foldl (\<lambda>s k. listener legal k text s) st ks)"
  by (induction ks arbitrary: st) (simp_all add: tidy_listener)

lemma tidy_step_movetime: "tidy st \<Longrightarrow> tidy (step_movetime elo multipv legal st e)"
proof (cases e)
  case (Analyze f t)
  then show "tidy st \<Longrightarrow> ?thesis"
    by (auto simp: tidy_def analyze_movetime_def Let_def new_request_def)
next
  case (Message m)
  have "tidy s \<Longrightarrow> tidy (onMsg_movetime elo multipv legal m s)" for s
    unfolding onMsg_movetime_def Let_def dispatch_def
    by (rule tidy_foldl_listener) (simp add: tidy_def)
  with Message show "tidy st \<Longrightarrow> ?thesis" by simp
next
  case (Timeout k)
  then show "tidy st \<Longrightarrow> ?thesis"
    by (auto simp: tidy_def timeout_fires_def Let_def promise_resolve)
next
  case (Configure a b)
  then show "tidy st \<Longrightarrow> ?thesis" by (simp add: tidy_def sync_options_def)
qed

lemma tidy_run_movetime: "tidy st \<Longrightarrow> tidy (run_movetime elo multipv legal st evs)"
  unfolding run_movetime_def
  by (induction evs arbitrary: st) (simp_all add: tidy_step_movetime)

lemma timeout_partial_data:
  assumes "tidy st" and "(k, d) \<in> set (timers st)" and "promise (requests st k) = None"
  shows "promise (requests (timeout_fires k st) k) =
     Some \<lparr>bestmove = None, cp = lastCp (requests st k),
           pv_lines = compact (r_lines (requests st k))\<rparr>"
proof -
  from assms(1,3) have "r_bestmove (requests st k) = None" by (simp add: tidy_def)
  with timeout_settles [OF assms(2)] assms(3) show ?thesis by (simp add: observed_def)
qed

lemma timeout_without_lines:
  assumes "engine st"
  shows "promise (requests (timeout_fires (calls st) (analyze_movetime f t st)) (calls st)) =
     Some neutral"
proof -
  have "(calls st, t + 600) \<in> set (timers (analyze_movetime f t st))"
    using assms by (simp add: analyze_movetime_def Let_def)
  from timeout_settles [OF this] assms show ?thesis
    by (simp add: analyze_movetime_def Let_def new_request_def observed_def neutral_def compact_def
        List.map_filter_simps)
qed

subsection \<open>The handshake\<close>

lemma onMsg_movetime_posted:
  "posted (onMsg_movetime elo multipv legal text st) =
     posted st @ (if str_includes text ''uciok''
                  then [SetLimitStrength, SetElo elo, SetMultiPV multipv, IsReady] else [])"
  by (simp add: onMsg_movetime_def Let_def)

lemma onMsg_movetime_ready:
  "ready (onMsg_movetime elo multipv legal text st) \<longleftrightarrow> ready st \<or> str_includes text ''readyok''"
  by (simp add: onMsg_movetime_def Let_def)

lemma step_movetime_probe:
  assumes "IsReady \<in> set (posted (step_movetime elo multipv legal st e))"
  shows "IsReady \<in> set (posted st) \<or> (\<exists>text. e = Message text \<and> str_includes text ''uciok'')"
  using assms
  by (cases e)
    (auto simp: analyze_movetime_def Let_def onMsg_movetime_posted sync_options_def
      timeout_fires_def split: if_splits)

lemma step_movetime_ready:
  assumes "ready (step_movetime elo multipv legal st e)"
  shows "ready st \<or> (\<exists>text. e = Message text \<and> str_includes text ''readyok'')"
  using assms
  by (cases e)
    (auto simp: analyze_movetime_def Let_def onMsg_movetime_ready sync_options_def
      timeout_fires_def split: if_splits)

lemma answers_probes_append:
  "answers_probes stp st (xs @ ys) \<longleftrightarrow>
     answers_probes stp st xs \<and> answers_probes stp (foldl stp st xs) ys"
  by (induction xs arbitrary: st) auto

lemma probe_after_handshake:
  assumes "IsReady \<notin> set (posted st)"
    and "IsReady \<in> set (posted (run_movetime elo multipv legal st evs))"
  shows "\<exists>pre m post. evs = pre @ Message m # post \<and> str_includes m ''uciok''"
  using assms(2)
proof (induction evs rule: rev_induct)
  case Nil
  with assms(1) show ?case by (simp add: run_movetime_def)
next
  case (snoc e evs)
  let ?s = "run_movetime elo multipv legal st evs"
  from snoc.prems have "IsReady \<in> set (posted (step_movetime elo multipv legal ?s e))"
    by (simp add: run_movetime_def)
  from step_movetime_probe [OF this] show ?case
  proof
    assume "IsReady \<in> set (posted ?s)"
    from snoc.IH [OF this] obtain pre m post where
      "evs = pre @ Message m # post" "str_includes m ''uciok''" by blast
    then have "evs @ [e] = pre @ Message m # (post @ [e])" by simp
    with \<open>str_includes m ''uciok''\<close> show ?thesis by blast
  next
    assume "\<exists>text. e = Message text \<and> str_includes text ''uciok''"
    then obtain m where "e = Message m" "str_includes m ''uciok''" by blast
    then have "evs @ [e] = evs @ Message m # []" by simp
    with \<open>str_includes m ''uciok''\<close> show ?thesis by blast
  qed
qed

lemma ready_after_both:
  assumes "IsReady \<notin> set (posted st)" and "\<not> ready st"
    and "answers_probes (step_movetime elo multipv legal) st evs"
    and "ready (run_movetime elo multipv legal st evs)"
  shows "\<exists>pre m1 mid m2 post. evs = pre @ Message m1 # mid @ Message m2 # post \<and>
           str_includes m1 ''uciok'' \<and> str_includes m2 ''readyok''"
  using assms(3,4)
proof (induction evs rule: rev_induct)
  case Nil
  with assms(2) show ?case by (simp add: run_movetime_def)
next
  case (snoc e evs)
  let ?s = "run_movetime elo multipv legal st evs"
  from snoc.prems(1) have ap: "answers_probes (step_movetime elo multipv legal) st evs"
    and ae: "answers_probes (step_movetime elo multipv legal) ?s [e]"
    by (simp_all add: answers_probes_append run_movetime_def)
  from snoc.prems(2) have "ready (step_movetime elo multipv legal ?s e)"
    by (simp add: run_movetime_def)
  from step_movetime_ready [OF this] show ?case
  proof
    assume "ready ?s"
    from snoc.IH [OF ap this] obtain pre m1 mid m2 post where
      "evs = pre @ Message m1 # mid @ Message m2 # post"
      "str_includes m1 ''uciok''" "str_includes m2 ''readyok''" by blast
    then have "evs @ [e] = pre @ Message m1 # mid @ Message m2 # (post @ [e])
        \<and> str_includes m1 ''uciok'' \<and> str_includes m2 ''readyok''" by simp
    then show ?thesis by blast
  next
    assume "\<exists>text. e = Message text \<and> str_includes text ''readyok''"
    then obtain m2 where e: "e = Message m2" and r: "str_includes m2 ''readyok''" by blast
    with ae have "IsReady \<in> set (posted ?s)" by simp
    from probe_after_handshake [OF assms(1) this] obtain pre m post where
      "evs = pre @ Message m # post" "str_includes m ''uciok''" by blast
    with e r have "evs @ [e] = pre @ Message m # post @ Message m2 # []
        \<and> str_includes m ''uciok'' \<and> str_includes m2 ''readyok''" by simp
    then show ?thesis by blast
  qed
qed

lemma ready_needs_readyok:
  assumes "\<not> ready st" and "ready (run_movetime elo multipv legal st evs)"
  shows "\<exists>m. Message m \<in> set evs \<and> str_includes m ''readyok''"
  using assms(2)
proof (induction evs rule: rev_induct)
  case Nil
  with assms(1) show ?case by (simp add: run_movetime_def)
next
  case (snoc e evs)
  from snoc.prems have "ready (step_movetime elo multipv legal (run_movetime elo multipv legal st evs) e)"
    by (simp add: run_movetime_def)
  from step_movetime_ready [OF this] snoc.IH show ?case by auto
qed

text \<open>
  The movetime variant. On each handshake acknowledgment the session posts the option-set
  commands (rating-limit flag, rating value, variation count) and then the readiness
  probe, in this order, and a message makes it Ready exactly when it holds a ready
  acknowledgment. With an engine that sends a ready acknowledgment only in answer to a
  probe, the session is Ready only after a handshake acknowledgment and a later ready
  acknowledgment.
\<close>

lemma ready_after_handshake_and_probe:
  assumes "answers_probes (step_movetime elo multipv legal) (mount True) evs"
    and "ready (run_movetime elo multipv legal (mount True) evs)"
  shows "(\<exists>pre m1 mid m2 post. evs = pre @ Message m1 # mid @ Message m2 # post \<and>
            str_includes m1 ''uciok'' \<and> str_includes m2 ''readyok'')
    \<and> posted (onMsg_movetime elo multipv legal text st) =
        posted st @ (if str_includes text ''uciok''
                     then [SetLimitStrength, SetElo elo, SetMultiPV multipv, IsReady] else [])
    \<and> (ready (onMsg_movetime elo multipv legal text st) \<longleftrightarrow>
          ready st \<or> str_includes text ''readyok'')"
proof -
  have "IsReady \<notin> set (posted (mount True))" "\<not> ready (mount True)"
    by (simp_all add: mount_def)
  from ready_after_both [OF this assms] show ?thesis
    by (simp add: onMsg_movetime_posted onMsg_movetime_ready)
qed

lemma ready_after_handshake_and_probe_example:
  "answers_probes (step_movetime 1200 3 frag_legal) (mount True)
     [Message ''uciok'', Message ''readyok'']
   \<and> ready (run_movetime 1200 3 frag_legal (mount True) [Message ''uciok'', Message ''readyok''])
   \<and> \<not> ready (run_movetime 1200 3 frag_legal (mount True) [Message ''uciok''])
   \<and> posted (run_movetime 1200 3 frag_legal (mount True) [Message ''uciok'']) =
       [Uci, SetLimitStrength, SetElo 1200, SetMultiPV 3, IsReady]"
  by code_simp

text \<open>The depth variant never posts the readiness probe.\<close>

lemma step_depth_no_probe:
  assumes "IsReady \<notin> set (posted st)"
  shows "IsReady \<notin> set (posted (step_depth elo multipv legal st e))"
  using assms
  by (cases e) (auto simp: analyze_depth_def Let_def onMsg_depth_def sync_options_def)

lemma depth_never_probes:
  "IsReady \<notin> set (posted (run_depth elo multipv legal (mount ctor) evs))"
proof -
  have "IsReady \<notin> set (posted st) \<Longrightarrow>
        IsReady \<notin> set (posted (foldl (step_depth elo multipv legal) st evs))" for st
    by (induction evs arbitrary: st) (simp_all add: step_depth_no_probe)
  then show ?thesis by (simp add: run_depth_def mount_def)
qed

text \<open>
  C3, in the depth variant. The specification has the session enter the Ready state only
  after a handshake acknowledgment and a later ready acknowledgment, the session probing
  readiness after the option-set commands. In the depth variant the handshake
  acknowledgment itself makes the session Ready: after the single message uciok the
  session is Ready, it has posted the three option-set commands and no probe, and no
  ready acknowledgment has been received.
\<close>

theorem depth_ready_without_probe:
  "ready (run_depth 1200 3 frag_legal (mount True) [Message ''uciok''])
   \<and> posted (run_depth 1200 3 frag_legal (mount True) [Message ''uciok'']) =
       [Uci, SetLimitStrength, SetElo 1200, SetMultiPV 3]
   \<and> IsReady \<notin> set (posted (run_depth 1200 3 frag_legal (mount True) [Message ''uciok'']))
   \<and> \<not> str_includes ''uciok'' ''readyok''
   \<and> \<not> ready (mount True)"
  by code_simp

subsection \<open>Without an engine\<close>

lemma idle_mount: "idle (mount False)"
  by (simp add: idle_def mount_def)

lemma idle_analyze_movetime: "idle st \<Longrightarrow> idle (analyze_movetime f t st)"
  by (auto simp: idle_def analyze_movetime_def Let_def less_Suc_eq)

lemma idle_analyze_depth: "idle st \<Longrightarrow> idle (analyze_depth f d st)"
  by (auto simp: idle_def analyze_depth_def Let_def less_Suc_eq)

lemma idle_step_movetime: "idle st \<Longrightarrow> idle (step_movetime elo multipv legal st e)"
proof (cases e)
  case (Analyze f t)
  then show "idle st \<Longrightarrow> ?thesis" by (simp add: idle_analyze_movetime)
next
  case (Message m)
  then show "idle st \<Longrightarrow> ?thesis" by (simp add: idle_def)
next
  case (Timeout k)
  then show "idle st \<Longrightarrow> ?thesis" by (simp add: idle_def timeout_fires_def)
next
  case (Configure a b)
  then show "idle st \<Longrightarrow> ?thesis" by (simp add: idle_def sync_options_def)
qed

lemma idle_step_depth: "idle st \<Longrightarrow> idle (step_depth elo multipv legal st e)"
proof (cases e)
  case (Analyze f t)
  then show "idle st \<Longrightarrow> ?thesis" by (simp add: idle_analyze_depth)
next
  case (Message m)
  then show "idle st \<Longrightarrow> ?thesis" by (simp add: idle_def)
next
  case (Timeout k)
  then show "idle st \<Longrightarrow> ?thesis" by simp
next
  case (Configure a b)
  then show "idle st \<Longrightarrow> ?thesis" by (simp add: idle_def sync_options_def)
qed

lemma idle_run_movetime: "idle st \<Longrightarrow> idle (run_movetime elo multipv legal st evs)"
  unfolding run_movetime_def
  by (induction evs arbitrary: st) (simp_all add: idle_step_movetime)

lemma idle_run_depth: "idle st \<Longrightarrow> idle (run_depth elo multipv legal st evs)"
  unfolding run_depth_def
  by (induction evs arbitrary: st) (simp_all add: idle_step_depth)

text \<open>
  C4 (as amended). If the engine capability is absent, so that the session never reaches
  Ready, every call to analyze resolves at once with the neutral zero result (no best
  move, score 0, no variations) and leaves no listener registered: nothing is posted and
  no timeout is set. While an engine is present and not yet Ready, analyze does not check
  readiness.
\<close>

theorem analyze_without_engine:
  "idle (run_movetime elo multipv legal (mount False) evs)
   \<and> idle (run_depth elo multipv legal (mount False) evs)
   \<and> (\<not> engine st \<longrightarrow>
        promise (requests (analyze_movetime f t st) (calls st)) = Some neutral \<and>
        listeners (analyze_movetime f t st) = listeners st \<and>
        posted (analyze_movetime f t st) = posted st \<and>
        timers (analyze_movetime f t st) = timers st)
   \<and> (\<not> engine st \<longrightarrow>
        promise (requests (analyze_depth f t st) (calls st)) = Some neutral \<and>
        listeners (analyze_depth f t st) = listeners st \<and>
        posted (analyze_depth f t st) = posted st \<and>
        timers (analyze_depth f t st) = timers st)
   \<and> (engine st \<longrightarrow>
        promise (requests (analyze_movetime f t st) (calls st)) = None \<and>
        listeners (analyze_movetime f t st) = listeners st @ [calls st] \<and>
        promise (requests (analyze_depth f t st) (calls st)) = None \<and>
        listeners (analyze_depth f t st) = listeners st @ [calls st])"
  by (simp add: idle_run_movetime idle_run_depth idle_mount analyze_movetime_def
      analyze_depth_def Let_def new_request_def)

theorem analyze_without_engine_witness:
  "\<not> engine (mount False)
   \<and> promise (requests (analyze_movetime fen_start 450 (mount False)) (calls (mount False))) =
       Some \<lparr>bestmove = None, cp = 0, pv_lines = []\<rparr>
   \<and> listeners (analyze_movetime fen_start 450 (mount False)) = []
   \<and> listeners (run_depth 1200 3 frag_legal (mount False)
        [Analyze fen_start 16, Message ''uciok'', Analyze fen_e4 16]) = []"
proof -
  have e: "\<not> engine (mount False)" by (simp add: mount_def)
  have l: "listeners (mount False) = []" by (simp add: mount_def)
  from analyze_without_engine [of 1200 3 frag_legal
      "[Analyze fen_start 16, Message ''uciok'', Analyze fen_e4 16]" "mount False" fen_start 450]
  show ?thesis using e l by (simp add: idle_def neutral_def)
qed

text \<open>
  With an engine that is not yet Ready, analyze registers its listener and posts the
  search, and the promise is pending, in either variant.
\<close>

theorem analyze_before_ready_registers:
  "engine (mount True) \<and> \<not> ready (mount True)
   \<and> listeners (analyze_movetime fen_start 450 (mount True)) = [0]
   \<and> promise (requests (analyze_movetime fen_start 450 (mount True)) 0) = None
   \<and> posted (analyze_movetime fen_start 450 (mount True)) =
       [Uci, Stop, PositionFen fen_start, GoMovetime 450]
   \<and> listeners (analyze_depth fen_start 16 (mount True)) = [0]
   \<and> promise (requests (analyze_depth fen_start 16 (mount True)) 0) = None"
  by (simp add: mount_def analyze_movetime_def analyze_depth_def Let_def new_request_def)

section \<open>Properties of the piece-drop handler\<close>

text \<open>
  C9 (as amended). For every user move that the board-state collaborator rejects, the
  handler returns false without appending a MoveRecord and without changing the board
  state. In the depth variant nothing else changes either. In the movetime variant the
  handler first analyses the position before the move when the engine is ready, so that
  analysis has been issued before the move is tried; once it has settled the handler
  returns false and changes nothing more. With an engine that is not ready the movetime
  handler changes nothing.
\<close>

theorem illegal_move_aborts:
  assumes "make_move ch game (moveObj sourceSquare targetSquare) = None"
  shows "onPieceDrop_depth ch rdy depth sourceSquare targetSquare game a = (DReturned False, a)
    \<and> onPieceDrop_movetime ch False sourceSquare targetSquare game a = (MReturned False, a)
    \<and> onPieceDrop_movetime ch True sourceSquare targetSquare game a =
        (MAwaitPre (calls (hook_state a)) sourceSquare targetSquare game,
         a\<lparr>hook_state := analyze_movetime (get_fen ch game) MOVETIME_MS (hook_state a)\<rparr>)
    \<and> after_pre_movetime ch rdy sourceSquare targetSquare game pre a' = (MReturned False, a')
    \<and> resume_movetime ch rdy (MAwaitPre k sourceSquare targetSquare game) a' =
        (case promise (requests (hook_state a') k) of
           None \<Rightarrow> (MAwaitPre k sourceSquare targetSquare game, a')
         | Some pre \<Rightarrow> (MReturned False, a'))
    \<and> coach (snd (onPieceDrop_movetime ch rdy sourceSquare targetSquare game a)) = coach a
    \<and> game_state (snd (onPieceDrop_movetime ch rdy sourceSquare targetSquare game a)) = game_state a
    \<and> fen_state (snd (onPieceDrop_movetime ch rdy sourceSquare targetSquare game a)) = fen_state a"
  using assms
  by (simp add: onPieceDrop_depth_def onPieceDrop_movetime_def after_pre_movetime_def
      resume_movetime_def Let_def split: option.splits)

text \<open>
  In the movetime variant with a ready engine, the drop e2 to e5 in the initial position,
  which is no legal move, posts a search to the engine and registers a listener.
\<close>

theorem illegal_move_issues_analysis:
  "make_move frag (new_chess frag) (moveObj ''e2'' ''e5'') = None
   \<and> ready (hook_state app_ready)
   \<and> listeners (hook_state app_ready) = []
   \<and> posted (hook_state (snd (onPieceDrop_movetime frag True ''e2'' ''e5'' (new_chess frag)
        app_ready))) =
       posted (hook_state app_ready) @ [Stop, PositionFen fen_start, GoMovetime 450]
   \<and> listeners (hook_state (snd (onPieceDrop_movetime frag True ''e2'' ''e5'' (new_chess frag)
        app_ready))) = [0]"
  by code_simp

theorem illegal_move_aborts_witness:
  "make_move frag (new_chess frag) (moveObj ''e2'' ''e5'') = None
   \<and> onPieceDrop_depth frag True 16 ''e2'' ''e5'' (new_chess frag) app_ready =
       (DReturned False, app_ready)
   \<and> coach (snd (onPieceDrop_movetime frag True ''e2'' ''e5'' (new_chess frag) app_ready)) = []"
proof -
  have i: "make_move frag (new_chess frag) (moveObj ''e2'' ''e5'') = None" by code_simp
  have c: "coach app_ready = []" by (simp add: app_ready_def)
  from illegal_move_aborts [OF i, of True 16 app_ready] i c show ?thesis by simp
qed

text \<open>What the stretches after the user's move leave of the board that was set.\<close>

lemma engineMove_movetime_board [simp]:
  "fen_state (snd (engineMove_movetime ch rdy g a)) = fen_state a"
  "game_state (snd (engineMove_movetime ch rdy g a)) = game_state a"
  "coach (snd (engineMove_movetime ch rdy g a)) = coach a"
  by (simp_all add: engineMove_movetime_def)

lemma engineMove_depth_board [simp]:
  "fen_state (snd (engineMove_depth ch rdy depth g a)) = fen_state a"
  "game_state (snd (engineMove_depth ch rdy depth g a)) = game_state a"
  "coach (snd (engineMove_depth ch rdy depth g a)) = coach a"
  by (simp_all add: engineMove_depth_def)









end
